theory Spec2Isabelle
  imports Main "HOL-Library.Word" "HOL-Library.Multiset"
begin

section \<open>The intermediate representation\<close>

text \<open>
  The pass \<^verbatim>\<open>MergeCalls::runOnFunction\<close> (src/llvm/MergeCallsPass.cpp) works on an LLVM
  function through LLVM's own primitives. The function body is modelled as the list of
  its basic blocks in layout order, a block as its address and the list of its
  instructions. A basic block is identified by its address (a \<^typ>\<open>nat\<close>): the code
  keys a \<^verbatim>\<open>std::map\<close> by \<^verbatim>\<open>BasicBlock*\<close>, so the order of the addresses is part of the
  input. An instruction is identified by a number that is never reused. A callee
  function is identified by its address, the key of \<^verbatim>\<open>funcToInvokers\<close>.

  Types, metadata, exception handling (invoke, landing pads) and volatile flags are not
  modelled. An operand is a value: the result of an instruction, a formal argument of
  the function, a 32-bit integer constant, or some other constant.
\<close>

datatype val =
    VInst nat
  | VArg nat
  | VConstI32 "32 word"
  | VOther nat
  | NoOperand

datatype callee =
    InlineAsm
  | Indirect val
  | Direct nat

datatype kind =
    Alloca
  | BitCast val
  | Load val
  | Store val val
  | Call callee "val list"
  | PHI "(val \<times> nat) list"
  | Br nat
  | Switch val nat "(32 word \<times> nat) list"
  | Other "val list"
  | Term "val list" "nat list"

datatype instr = Instr (iid: nat) (iname: string) (ikind: kind)

datatype block = Block (baddr: nat) (insts: "instr list")

text \<open>What the pass reads of a callee: \<^verbatim>\<open>isIntrinsic()\<close> and \<^verbatim>\<open>arg_size()\<close>.\<close>

record func_info =
  isIntrinsic :: bool
  arg_size :: nat

text \<open>The function being transformed, with the next unused instruction number.\<close>

record ir =
  blocks :: "block list"
  next_id :: nat

subsection \<open>Reading the function\<close>

fun callee_operands :: "callee \<Rightarrow> val list" where
  "callee_operands InlineAsm = []"
| "callee_operands (Indirect v) = [v]"
| "callee_operands (Direct f) = []"

fun operands :: "kind \<Rightarrow> val list" where
  "operands Alloca = []"
| "operands (BitCast v) = [v]"
| "operands (Load p) = [p]"
| "operands (Store v p) = [v, p]"
| "operands (Call c args) = args @ callee_operands c"
| "operands (PHI inc) = map fst inc"
| "operands (Br b) = []"
| "operands (Switch v d cs) = [v]"
| "operands (Other vs) = vs"
| "operands (Term vs bs) = vs"

fun isPHIk :: "kind \<Rightarrow> bool" where
  "isPHIk (PHI inc) = True"
| "isPHIk k = False"

fun isAllocak :: "kind \<Rightarrow> bool" where
  "isAllocak Alloca = True"
| "isAllocak k = False"

fun isTerminatork :: "kind \<Rightarrow> bool" where
  "isTerminatork (Br b) = True"
| "isTerminatork (Switch v d cs) = True"
| "isTerminatork (Term vs bs) = True"
| "isTerminatork k = False"

fun successors :: "kind \<Rightarrow> nat list" where
  "successors (Br b) = [b]"
| "successors (Switch v d cs) = d # map snd cs"
| "successors (Term vs bs) = bs"
| "successors k = []"

definition isPHI :: "instr \<Rightarrow> bool" where
  "isPHI I = isPHIk (ikind I)"

definition isAlloca :: "instr \<Rightarrow> bool" where
  "isAlloca I = isAllocak (ikind I)"

definition all_insts :: "block list \<Rightarrow> instr list" where
  "all_insts F = concat (map insts F)"

definition addrs :: "block list \<Rightarrow> nat list" where
  "addrs F = map baddr F"

definition ids :: "block list \<Rightarrow> nat list" where
  "ids F = map iid (all_insts F)"

definition find_inst :: "block list \<Rightarrow> nat \<Rightarrow> instr option" where
  "find_inst F i = find (\<lambda>I. iid I = i) (all_insts F)"

text \<open>\<^verbatim>\<open>Instruction::getParent()\<close>: the block that holds the instruction.\<close>

definition has_inst :: "nat \<Rightarrow> block \<Rightarrow> bool" where
  "has_inst i B = (i \<in> set (map iid (insts B)))"

definition getParent :: "block list \<Rightarrow> nat \<Rightarrow> nat option" where
  "getParent F i = map_option baddr (find (has_inst i) F)"

definition block_insts :: "block list \<Rightarrow> nat \<Rightarrow> instr list" where
  "block_insts F a = (case find (\<lambda>B. baddr B = a) F of Some B \<Rightarrow> insts B | None \<Rightarrow> [])"

text \<open>
  \<^verbatim>\<open>Value::users()\<close>: LLVM keeps a use list per value; here the users of instruction
  \<open>i\<close> are found by scanning the function, each with the address of its block.
\<close>

definition uses :: "nat \<Rightarrow> instr \<Rightarrow> bool" where
  "uses i U = (VInst i \<in> set (operands (ikind U)))"

definition users :: "block list \<Rightarrow> nat \<Rightarrow> (nat \<times> instr) list" where
  "users F i = concat (map (\<lambda>B. map (\<lambda>U. (baddr B, U)) (filter (uses i) (insts B))) F)"

text \<open>\<^verbatim>\<open>BasicBlock::getTerminator()\<close>: the last instruction when it is a terminator.\<close>

definition getTerminator :: "instr list \<Rightarrow> instr option" where
  "getTerminator es = (if es \<noteq> [] \<and> isTerminatork (ikind (last es)) then Some (last es) else None)"

subsection \<open>valueEscapes (lines 21-29)\<close>

fun valueEscapes_loop :: "nat option \<Rightarrow> (nat \<times> instr) list \<Rightarrow> bool" where
  "valueEscapes_loop BB [] = False"
| "valueEscapes_loop BB ((p, UI) # us) =
     (if Some p \<noteq> BB \<or> isPHI UI then True else valueEscapes_loop BB us)"

definition valueEscapes :: "block list \<Rightarrow> nat \<Rightarrow> bool" where
  "valueEscapes F Inst = valueEscapes_loop (getParent F Inst) (users F Inst)"

subsection \<open>The containers of the pass\<close>

text \<open>
  A \<^verbatim>\<open>std::map\<close> keyed by a pointer is an association list kept in ascending order of
  the addresses; iterating it visits the keys in that order. \<open>map_push\<close> is
  \<^verbatim>\<open>m[k].push_back(v)\<close>, \<open>map_set\<close> is \<^verbatim>\<open>m[k] = v\<close>, \<open>map_get\<close> is reading \<^verbatim>\<open>m[k]\<close>
  (a missing key reads as the null pointer, address 0).
\<close>

fun map_push :: "nat \<Rightarrow> 'a \<Rightarrow> (nat \<times> 'a list) list \<Rightarrow> (nat \<times> 'a list) list" where
  "map_push k v [] = [(k, [v])]"
| "map_push k v ((k', vs) # m) =
     (if k = k' then (k', vs @ [v]) # m
      else if k < k' then (k, [v]) # (k', vs) # m
      else (k', vs) # map_push k v m)"

fun map_set :: "nat \<Rightarrow> nat \<Rightarrow> (nat \<times> nat) list \<Rightarrow> (nat \<times> nat) list" where
  "map_set k v [] = [(k, v)]"
| "map_set k v ((k', v') # m) =
     (if k = k' then (k', v) # m
      else if k < k' then (k, v) # (k', v') # m
      else (k', v') # map_set k v m)"

definition map_get :: "(nat \<times> nat) list \<Rightarrow> nat \<Rightarrow> nat" where
  "map_get m k = (case map_of m k of Some v \<Rightarrow> v | None \<Rightarrow> 0)"

subsection \<open>The collecting loop (lines 32-55)\<close>

text \<open>The direct calls to the function at address \<open>t\<close>, in layout order.\<close>

definition isCallTo :: "nat \<Rightarrow> instr \<Rightarrow> bool" where
  "isCallTo t I = (case ikind I of Call c args \<Rightarrow> c = Direct t | _ \<Rightarrow> False)"

definition callids :: "nat \<Rightarrow> block list \<Rightarrow> nat list" where
  "callids t F = map iid (filter (isCallTo t) (all_insts F))"


fun collect_insts :: "(nat \<Rightarrow> func_info) \<Rightarrow> instr list \<Rightarrow> (nat \<times> nat list) list \<Rightarrow> (nat \<times> nat list) list" where
  "collect_insts M [] m = m"
| "collect_insts M (I # rest) m =
     (case ikind I of
        Call c args \<Rightarrow>
          (case c of
             InlineAsm \<Rightarrow> collect_insts M rest m
           | Indirect v \<Rightarrow> collect_insts M rest m
           | Direct f \<Rightarrow>
               if isIntrinsic (M f) then collect_insts M rest m
               else collect_insts M rest (map_push f (iid I) m))
      | _ \<Rightarrow> collect_insts M rest m)"

fun collect_blocks :: "(nat \<Rightarrow> func_info) \<Rightarrow> block list \<Rightarrow> (nat \<times> nat list) list \<Rightarrow> (nat \<times> nat list) list" where
  "collect_blocks M [] m = m"
| "collect_blocks M (B # Bs) m = collect_blocks M Bs (collect_insts M (insts B) m)"

definition collect :: "(nat \<Rightarrow> func_info) \<Rightarrow> block list \<Rightarrow> (nat \<times> nat list) list" where
  "collect M F = collect_blocks M F []"

section \<open>LLVM's primitives\<close>

text \<open>
  The primitives below are LLVM's, not this repository's; they are modelled after LLVM's
  implementation. Each is a total function on lists. Where LLVM's behaviour is undefined
  (a block without terminator, an instruction that is in no block) the model leaves the
  function unchanged or inserts nothing; no input that LLVM's verifier accepts gets
  there.
\<close>

definition map_insts :: "(instr list \<Rightarrow> instr list) \<Rightarrow> block \<Rightarrow> block" where
  "map_insts f B = Block (baddr B) (f (insts B))"

text \<open>
  A pointer names one object: \<open>at_block a f\<close> changes the instruction list of the block at
  address \<open>a\<close>, \<open>at_inst i f\<close> that of the block holding instruction \<open>i\<close>.
\<close>

fun at_block :: "nat \<Rightarrow> (instr list \<Rightarrow> instr list) \<Rightarrow> block list \<Rightarrow> block list" where
  "at_block a f [] = []"
| "at_block a f (B # Bs) = (if baddr B = a then map_insts f B # Bs else B # at_block a f Bs)"

fun at_inst :: "nat \<Rightarrow> (instr list \<Rightarrow> instr list) \<Rightarrow> block list \<Rightarrow> block list" where
  "at_inst i f [] = []"
| "at_inst i f (B # Bs) = (if has_inst i B then map_insts f B # Bs else B # at_inst i f Bs)"

text \<open>Insert \<open>new\<close> before the instruction numbered \<open>x\<close>.\<close>

fun ins_before :: "nat \<Rightarrow> instr \<Rightarrow> instr list \<Rightarrow> instr list" where
  "ins_before x new [] = []"
| "ins_before x new (I # rest) =
     (if iid I = x then new # I # rest else I # ins_before x new rest)"

definition insertBefore :: "nat \<Rightarrow> instr \<Rightarrow> block list \<Rightarrow> block list" where
  "insertBefore x new F = at_inst x (ins_before x new) F"

text \<open>\<^verbatim>\<open>new ...Inst(..., BB)\<close>: append at the end of block \<open>a\<close>.\<close>

definition append_inst :: "nat \<Rightarrow> instr \<Rightarrow> block list \<Rightarrow> block list" where
  "append_inst a new F = at_block a (\<lambda>es. es @ [new]) F"

text \<open>\<^verbatim>\<open>Instruction::eraseFromParent()\<close>.\<close>

fun erase1 :: "nat \<Rightarrow> instr list \<Rightarrow> instr list" where
  "erase1 i [] = []"
| "erase1 i (I # rest) = (if iid I = i then rest else I # erase1 i rest)"

definition eraseFromParent :: "nat \<Rightarrow> block list \<Rightarrow> block list" where
  "eraseFromParent i F = at_inst i (erase1 i) F"

text \<open>\<^verbatim>\<open>User::replaceUsesOfWith\<close> and \<^verbatim>\<open>Value::replaceAllUsesWith\<close>.\<close>

definition subst :: "val \<Rightarrow> val \<Rightarrow> val \<Rightarrow> val" where
  "subst old new v = (if v = old then new else v)"

fun map_callee :: "(val \<Rightarrow> val) \<Rightarrow> callee \<Rightarrow> callee" where
  "map_callee f InlineAsm = InlineAsm"
| "map_callee f (Indirect v) = Indirect (f v)"
| "map_callee f (Direct t) = Direct t"

fun map_operands :: "(val \<Rightarrow> val) \<Rightarrow> kind \<Rightarrow> kind" where
  "map_operands f Alloca = Alloca"
| "map_operands f (BitCast v) = BitCast (f v)"
| "map_operands f (Load p) = Load (f p)"
| "map_operands f (Store v p) = Store (f v) (f p)"
| "map_operands f (Call c args) = Call (map_callee f c) (map f args)"
| "map_operands f (PHI inc) = PHI (map (\<lambda>(v, b). (f v, b)) inc)"
| "map_operands f (Br b) = Br b"
| "map_operands f (Switch v d cs) = Switch (f v) d cs"
| "map_operands f (Other vs) = Other (map f vs)"
| "map_operands f (Term vs bs) = Term (map f vs) bs"

definition replaceUsesOfWith :: "val \<Rightarrow> val \<Rightarrow> instr \<Rightarrow> instr" where
  "replaceUsesOfWith old new U = Instr (iid U) (iname U) (map_operands (subst old new) (ikind U))"

definition replaceAllUsesWith :: "nat \<Rightarrow> nat \<Rightarrow> block list \<Rightarrow> block list" where
  "replaceAllUsesWith old new F =
     map (map_insts (map (replaceUsesOfWith (VInst old) (VInst new)))) F"

text \<open>\<^verbatim>\<open>CallBase::getArgOperand(i)\<close>; LLVM asserts that the operand exists.\<close>

definition getArgOperand :: "block list \<Rightarrow> nat \<Rightarrow> nat \<Rightarrow> val" where
  "getArgOperand F c i =
     (case find_inst F c of
        Some I \<Rightarrow>
          (case ikind I of
             Call cl args \<Rightarrow> if i < length args then args ! i else NoOperand
           | _ \<Rightarrow> NoOperand)
      | None \<Rightarrow> NoOperand)"

text \<open>
  \<^verbatim>\<open>BasicBlock::splitBasicBlock(I, "")\<close> with \<open>I\<close> the instruction after \<open>c\<close>: a new block is
  created right after block \<open>P\<close> in the layout, the instructions after \<open>c\<close> move into
  it, a branch to it is appended to \<open>P\<close>, and the PHI nodes at the head of the new
  block's successors that named \<open>P\<close> as incoming block now name the new block. The
  address of the new block is chosen by the allocator \<open>alloc\<close> from the addresses in use.
\<close>

definition phis_map :: "(instr \<Rightarrow> instr) \<Rightarrow> instr list \<Rightarrow> instr list" where
  "phis_map f es = map f (takeWhile isPHI es) @ dropWhile isPHI es"

definition replaceIncomingBlockWith :: "nat \<Rightarrow> nat \<Rightarrow> instr \<Rightarrow> instr" where
  "replaceIncomingBlockWith old new U =
     (case ikind U of
        PHI inc \<Rightarrow> Instr (iid U) (iname U) (PHI (map (\<lambda>(v, b). (v, if b = old then new else b)) inc))
      | _ \<Rightarrow> U)"

definition replaceSuccessorsPhiUsesWith :: "nat \<Rightarrow> nat \<Rightarrow> block list \<Rightarrow> block list" where
  "replaceSuccessorsPhiUsesWith old new F =
     (case getTerminator (block_insts F new) of
        None \<Rightarrow> F
      | Some T \<Rightarrow>
          map (\<lambda>B. if baddr B \<in> set (successors (ikind T))
                   then map_insts (phis_map (replaceIncomingBlockWith old new)) B else B) F)"

definition upto_inst :: "nat \<Rightarrow> instr list \<Rightarrow> instr list" where
  "upto_inst c es = takeWhile (\<lambda>I. iid I \<noteq> c) es @ take 1 (dropWhile (\<lambda>I. iid I \<noteq> c) es)"

definition after_inst :: "nat \<Rightarrow> instr list \<Rightarrow> instr list" where
  "after_inst c es = drop 1 (dropWhile (\<lambda>I. iid I \<noteq> c) es)"

fun split_at :: "nat \<Rightarrow> nat \<Rightarrow> nat \<Rightarrow> nat \<Rightarrow> block list \<Rightarrow> block list" where
  "split_at P c New n [] = []"
| "split_at P c New n (B # Bs) =
     (if baddr B = P
      then Block P (upto_inst c (insts B) @ [Instr n [] (Br New)]) # Block New (after_inst c (insts B)) # Bs
      else B # split_at P c New n Bs)"

definition splitBasicBlock :: "(nat list \<Rightarrow> nat) \<Rightarrow> nat \<Rightarrow> nat \<Rightarrow> ir \<Rightarrow> ir \<times> nat" where
  "splitBasicBlock alloc P c s =
     (let New = alloc (addrs (blocks s));
          F1 = split_at P c New (next_id s) (blocks s)
      in (\<lparr>blocks = replaceSuccessorsPhiUsesWith P New F1, next_id = Suc (next_id s)\<rparr>, New))"

text \<open>\<^verbatim>\<open>caller->moveBefore(returnBlock->getFirstNonPHI())\<close>.\<close>

definition moveBeforeFirstNonPHI :: "nat \<Rightarrow> nat \<Rightarrow> block list \<Rightarrow> block list" where
  "moveBeforeFirstNonPHI c R F =
     (case find_inst F c of
        None \<Rightarrow> F
      | Some C \<Rightarrow> at_block R (\<lambda>es. takeWhile isPHI es @ C # dropWhile isPHI es) (eraseFromParent c F))"

subsection \<open>DemoteRegToStack\<close>

text \<open>
  \<^verbatim>\<open>llvm::DemoteRegToStack(I, false, AllocaPoint)\<close> (Transforms/Utils/DemoteRegToStack.cpp):
  an instruction without users is erased; otherwise a stack slot is allocated before
  \<open>AllocaPoint\<close>, every user that is not a PHI node gets a reload right before it and
  reads the reload, every PHI user gets one reload per incoming block from which the
  value flows, placed before that block's terminator, and the value is stored to the
  slot right after its definition (after the PHI nodes that follow it). LLVM visits the
  users in use-list order, the model in layout order, the users that are not PHI nodes
  first; this changes only the numbering of the reloads and the order among reloads
  that stand before the same terminator.
\<close>

fun reload_list :: "nat \<Rightarrow> string \<Rightarrow> nat \<Rightarrow> nat \<Rightarrow> instr list \<Rightarrow> instr list" where
  "reload_list I nm slot n [] = []"
| "reload_list I nm slot n (U # rest) =
     (if uses I U \<and> \<not> isPHI U
      then Instr n (nm @ ''.reload'') (Load (VInst slot))
           # replaceUsesOfWith (VInst I) (VInst n) U
           # reload_list I nm slot (Suc n) rest
      else U # reload_list I nm slot n rest)"

definition n_reloads :: "nat \<Rightarrow> instr list \<Rightarrow> nat" where
  "n_reloads I es = length (filter (\<lambda>U. uses I U \<and> \<not> isPHI U) es)"

fun reload_blocks :: "nat \<Rightarrow> string \<Rightarrow> nat \<Rightarrow> nat \<Rightarrow> block list \<Rightarrow> block list" where
  "reload_blocks I nm slot n [] = []"
| "reload_blocks I nm slot n (B # Bs) =
     map_insts (reload_list I nm slot n) B # reload_blocks I nm slot (n + n_reloads I (insts B)) Bs"

definition phi_blocks :: "nat \<Rightarrow> instr \<Rightarrow> nat list" where
  "phi_blocks I U =
     (case ikind U of
        PHI inc \<Rightarrow> remdups (map snd (filter (\<lambda>(v, b). v = VInst I) inc))
      | _ \<Rightarrow> [])"

definition phi_reqs :: "nat \<Rightarrow> block list \<Rightarrow> (nat \<times> nat) list" where
  "phi_reqs I F = concat (map (\<lambda>U. map (\<lambda>b. (iid U, b)) (phi_blocks I U)) (all_insts F))"

definition reload_phi :: "nat \<Rightarrow> ((nat \<times> nat) \<times> nat) list \<Rightarrow> instr \<Rightarrow> instr" where
  "reload_phi I tab U =
     (case ikind U of
        PHI inc \<Rightarrow>
          Instr (iid U) (iname U)
            (PHI (map (\<lambda>(v, b). if v = VInst I
                                then (case map_of tab (iid U, b) of Some ld \<Rightarrow> (VInst ld, b) | None \<Rightarrow> (v, b))
                                else (v, b)) inc))
      | _ \<Rightarrow> U)"

definition insertBeforeTerminator :: "nat \<Rightarrow> instr \<Rightarrow> block list \<Rightarrow> block list" where
  "insertBeforeTerminator a new F =
     at_block a (\<lambda>es. case getTerminator es of Some T \<Rightarrow> butlast es @ [new, T] | None \<Rightarrow> es) F"

fun ins_store :: "nat \<Rightarrow> instr \<Rightarrow> instr list \<Rightarrow> instr list" where
  "ins_store i st [] = []"
| "ins_store i st (x # xs) =
     (if iid x = i
      then x # (if dropWhile isPHI xs = [] then xs else takeWhile isPHI xs @ st # dropWhile isPHI xs)
      else x # ins_store i st xs)"

definition insertStore :: "nat \<Rightarrow> instr \<Rightarrow> block list \<Rightarrow> block list" where
  "insertStore i st F = at_inst i (ins_store i st) F"

definition DemoteRegToStack :: "nat \<Rightarrow> nat \<Rightarrow> ir \<Rightarrow> ir" where
  "DemoteRegToStack I AllocaPoint s =
     (if users (blocks s) I = [] then s\<lparr>blocks := eraseFromParent I (blocks s)\<rparr>
      else
        let nm = (case find_inst (blocks s) I of Some Inst \<Rightarrow> iname Inst | None \<Rightarrow> []);
            slot = next_id s;
            F1 = insertBefore AllocaPoint (Instr slot (nm @ ''.reg2mem'') Alloca) (blocks s);
            n1 = Suc slot;
            F2 = reload_blocks I nm slot n1 F1;
            n2 = n1 + n_reloads I (all_insts F1);
            tab = zip (phi_reqs I F2) [n2 ..< n2 + length (phi_reqs I F2)];
            F3 = map (map_insts (map (reload_phi I tab))) F2;
            F4 = fold (\<lambda>((u, b), ld). insertBeforeTerminator b (Instr ld (nm @ ''.reload'') (Load (VInst slot)))) tab F3;
            n3 = n2 + length tab;
            F5 = insertStore I (Instr n3 [] (Store (VInst I) (VInst slot))) F4
        in \<lparr>blocks = F5, next_id = Suc n3\<rparr>)"

section \<open>The pass\<close>

subsection \<open>The alloca insertion point (lines 64-69)\<close>

text \<open>
  The entry block is the first block of the layout. The iterator skips its leading
  alloca instructions and the bitcast is inserted before the instruction it stops at.
\<close>

definition allocaPoint :: "nat \<Rightarrow> instr" where
  "allocaPoint n = Instr n ''mergecalls alloca point'' (BitCast (VConstI32 0))"

definition insertAllocaPoint :: "ir \<Rightarrow> ir" where
  "insertAllocaPoint s =
     (case blocks s of
        [] \<Rightarrow> s
      | BBEntry # rest \<Rightarrow>
          \<lparr>blocks = map_insts (\<lambda>es. takeWhile isAlloca es @ allocaPoint (next_id s) # dropWhile isAlloca es) BBEntry # rest,
           next_id = Suc (next_id s)\<rparr>)"

subsection \<open>Rewriting one call site (lines 71-101)\<close>

text \<open>
  The state of the loop over the callers: the function, \<^verbatim>\<open>callerToRet\<close> and
  \<^verbatim>\<open>callerToOrigParent\<close>. Lines 99-100 append the branch to the shared block and erase the
  instruction before it, that is the last instruction the block had.
\<close>

definition toDemote :: "nat \<Rightarrow> nat \<Rightarrow> block list \<Rightarrow> nat list" where
  "toDemote BBEntry parentBlock F =
     map iid (filter (\<lambda>I. \<not> (isAlloca I \<and> getParent F (iid I) = Some BBEntry) \<and> valueEscapes F (iid I))
                     (block_insts F parentBlock))"

definition demoteAll :: "nat \<Rightarrow> nat list \<Rightarrow> ir \<Rightarrow> ir" where
  "demoteAll AllocaInsertionPoint ds s = fold (\<lambda>demotedInstr. DemoteRegToStack demotedInstr AllocaInsertionPoint) ds s"

definition branchToCallBlock :: "nat \<Rightarrow> nat \<Rightarrow> ir \<Rightarrow> ir" where
  "branchToCallBlock callBlock parentBlock s =
     \<lparr>blocks = at_block parentBlock (\<lambda>es. butlast es @ [Instr (next_id s) [] (Br callBlock)]) (blocks s),
      next_id = Suc (next_id s)\<rparr>"

definition rewriteCaller ::
  "(nat list \<Rightarrow> nat) \<Rightarrow> nat \<Rightarrow> nat \<Rightarrow> nat \<Rightarrow> nat
    \<Rightarrow> ir \<times> (nat \<times> nat) list \<times> (nat \<times> nat) list \<Rightarrow> ir \<times> (nat \<times> nat) list \<times> (nat \<times> nat) list" where
  "rewriteCaller alloc BBEntry AllocaInsertionPoint callBlock caller st =
     (case st of (s, callerToRet, callerToOrigParent) \<Rightarrow>
       (case getParent (blocks s) caller of
          None \<Rightarrow> st
        | Some parentBlock \<Rightarrow>
            (case splitBasicBlock alloc parentBlock caller s of (s1, returnBlock) \<Rightarrow>
              let s2 = demoteAll AllocaInsertionPoint (toDemote BBEntry parentBlock (blocks s1)) s1;
                  s3 = s2\<lparr>blocks := moveBeforeFirstNonPHI caller returnBlock (blocks s2)\<rparr>;
                  s4 = (if users (blocks s3) caller \<noteq> []
                        then DemoteRegToStack caller AllocaInsertionPoint s3 else s3)
              in (branchToCallBlock callBlock parentBlock s4,
                  map_set parentBlock returnBlock callerToRet,
                  map_set caller parentBlock callerToOrigParent))))"

definition rewriteCallers ::
  "(nat list \<Rightarrow> nat) \<Rightarrow> nat \<Rightarrow> nat \<Rightarrow> nat \<Rightarrow> nat list \<Rightarrow> ir
    \<Rightarrow> ir \<times> (nat \<times> nat) list \<times> (nat \<times> nat) list" where
  "rewriteCallers alloc BBEntry AllocaInsertionPoint callBlock callers s =
     fold (rewriteCaller alloc BBEntry AllocaInsertionPoint callBlock) callers (s, [], [])"

text \<open>
  The call sites as the loop meets them: for every caller its \<^verbatim>\<open>parentBlock\<close> (the block
  that holds the call when the loop reaches it, the predecessor block of the site) and
  its \<^verbatim>\<open>returnBlock\<close> (the block that \<^verbatim>\<open>splitBasicBlock\<close> returns, the continuation block of
  the site).
\<close>

definition afterCaller :: "(nat list \<Rightarrow> nat) \<Rightarrow> nat \<Rightarrow> nat \<Rightarrow> nat \<Rightarrow> nat \<Rightarrow> ir \<Rightarrow> ir" where
  "afterCaller alloc BBEntry AllocaInsertionPoint callBlock caller s =
     fst (rewriteCaller alloc BBEntry AllocaInsertionPoint callBlock caller (s, [], []))"

definition afterCallers :: "(nat list \<Rightarrow> nat) \<Rightarrow> nat \<Rightarrow> nat \<Rightarrow> nat \<Rightarrow> nat list \<Rightarrow> ir \<Rightarrow> ir" where
  "afterCallers alloc BBEntry AllocaInsertionPoint callBlock callers s =
     fold (afterCaller alloc BBEntry AllocaInsertionPoint callBlock) callers s"

fun sites :: "(nat list \<Rightarrow> nat) \<Rightarrow> nat \<Rightarrow> nat \<Rightarrow> nat \<Rightarrow> nat list \<Rightarrow> ir \<Rightarrow> (nat \<times> nat \<times> nat) list" where
  "sites alloc BBEntry AllocaInsertionPoint callBlock [] s = []"
| "sites alloc BBEntry AllocaInsertionPoint callBlock (caller # callers) s =
     (case getParent (blocks s) caller of
        None \<Rightarrow> sites alloc BBEntry AllocaInsertionPoint callBlock callers s
      | Some parentBlock \<Rightarrow>
          (caller, parentBlock, snd (splitBasicBlock alloc parentBlock caller s))
          # sites alloc BBEntry AllocaInsertionPoint callBlock callers
              (afterCaller alloc BBEntry AllocaInsertionPoint callBlock caller s))"

subsection \<open>The argument PHI nodes and the call (lines 103-117)\<close>

definition argPHI :: "nat list \<Rightarrow> (nat \<times> nat) list \<Rightarrow> block list \<Rightarrow> nat \<Rightarrow> kind" where
  "argPHI callers callerToOrigParent F argCtr =
     PHI (map (\<lambda>caller. (getArgOperand F caller argCtr, map_get callerToOrigParent caller)) callers)"

definition addArgPHI :: "nat list \<Rightarrow> (nat \<times> nat) list \<Rightarrow> nat \<Rightarrow> nat \<Rightarrow> ir \<times> val list \<Rightarrow> ir \<times> val list" where
  "addArgPHI callers callerToOrigParent callBlock argCtr st =
     (case st of (s, callArgs) \<Rightarrow>
        (\<lparr>blocks = append_inst callBlock
                     (Instr (next_id s) [] (argPHI callers callerToOrigParent (blocks s) argCtr)) (blocks s),
          next_id = Suc (next_id s)\<rparr>,
         callArgs @ [VInst (next_id s)]))"

definition buildArgs :: "nat \<Rightarrow> nat list \<Rightarrow> (nat \<times> nat) list \<Rightarrow> nat \<Rightarrow> ir \<Rightarrow> ir \<times> val list" where
  "buildArgs n callers callerToOrigParent callBlock s =
     (if n > 0 then fold (addArgPHI callers callerToOrigParent callBlock) [0..<n] (s, [])
      else (s, []))"

definition emitCall :: "nat \<Rightarrow> nat \<Rightarrow> ir \<times> val list \<Rightarrow> ir" where
  "emitCall target callBlock st =
     (case st of (s, callArgs) \<Rightarrow>
        \<lparr>blocks = append_inst callBlock (Instr (next_id s) [] (Call (Direct target) callArgs)) (blocks s),
         next_id = Suc (next_id s)\<rparr>)"

subsection \<open>Replacing the original calls (lines 119-123)\<close>

definition replaceCallers :: "nat list \<Rightarrow> nat \<Rightarrow> block list \<Rightarrow> block list" where
  "replaceCallers callers callInstr F =
     fold (\<lambda>caller G. eraseFromParent caller (replaceAllUsesWith caller callInstr G)) callers F"

subsection \<open>The way back (lines 125-135)\<close>

text \<open>
  The loop over \<^verbatim>\<open>callerToRet\<close>, in the order of the map: \<^verbatim>\<open>branchIdx\<close> is the 32-bit
  constant \<^verbatim>\<open>APInt(32, switchCtr, true)\<close>.
\<close>

fun route_loop ::
  "(nat \<times> nat) list \<Rightarrow> int \<Rightarrow> (val \<times> nat) list \<Rightarrow> (32 word \<times> nat) list
    \<Rightarrow> (val \<times> nat) list \<times> (32 word \<times> nat) list" where
  "route_loop [] switchCtr incoming cases = (incoming, cases)"
| "route_loop ((parent, ret) # m) switchCtr incoming cases =
     route_loop m (switchCtr + 1)
       (incoming @ [(VConstI32 (word_of_int switchCtr), parent)])
       (cases @ [(word_of_int switchCtr, ret)])"

definition routeBack :: "nat \<Rightarrow> nat \<Rightarrow> (nat \<times> nat) list \<Rightarrow> ir \<Rightarrow> ir" where
  "routeBack callBlock callInstr callerToRet s =
     (case route_loop callerToRet 0 [] [] of (incoming, cases) \<Rightarrow>
        let whereFromNode = next_id s;
            switchBackInstr = Suc whereFromNode;
            F1 = insertBefore callInstr (Instr whereFromNode [] (PHI incoming)) (blocks s);
            F2 = append_inst callBlock
                   (Instr switchBackInstr [] (Switch (VInst whereFromNode) (snd (hd callerToRet)) cases)) F1
        in \<lparr>blocks = F2, next_id = Suc switchBackInstr\<rparr>)"

subsection \<open>One group (lines 58-136) and the whole pass\<close>

definition newCallBlock :: "(nat list \<Rightarrow> nat) \<Rightarrow> ir \<Rightarrow> nat" where
  "newCallBlock alloc s = alloc (addrs (blocks s))"

definition withCallBlock :: "(nat list \<Rightarrow> nat) \<Rightarrow> ir \<Rightarrow> ir" where
  "withCallBlock alloc s = s\<lparr>blocks := blocks s @ [Block (newCallBlock alloc s) []]\<rparr>"

definition rewritten ::
  "(nat list \<Rightarrow> nat) \<Rightarrow> nat list \<Rightarrow> ir \<Rightarrow> ir \<times> (nat \<times> nat) list \<times> (nat \<times> nat) list" where
  "rewritten alloc callers s =
     (let s1 = withCallBlock alloc s
      in rewriteCallers alloc (baddr (hd (blocks s1))) (next_id s1) (newCallBlock alloc s) callers
           (insertAllocaPoint s1))"

definition groupSites :: "(nat list \<Rightarrow> nat) \<Rightarrow> nat list \<Rightarrow> ir \<Rightarrow> (nat \<times> nat \<times> nat) list" where
  "groupSites alloc callers s =
     (let s1 = withCallBlock alloc s
      in sites alloc (baddr (hd (blocks s1))) (next_id s1) (newCallBlock alloc s) callers
           (insertAllocaPoint s1))"

definition mergeGroup :: "(nat list \<Rightarrow> nat) \<Rightarrow> (nat \<Rightarrow> func_info) \<Rightarrow> nat \<Rightarrow> nat list \<Rightarrow> ir \<Rightarrow> ir" where
  "mergeGroup alloc M target callers s =
     (case rewritten alloc callers s of (s3, callerToRet, callerToOrigParent) \<Rightarrow>
        let callBlock = newCallBlock alloc s;
            st4 = buildArgs (arg_size (M target)) callers callerToOrigParent callBlock s3;
            callInstr = next_id (fst st4);
            s5 = emitCall target callBlock st4;
            s6 = s5\<lparr>blocks := replaceCallers callers callInstr (blocks s5)\<rparr>
        in routeBack callBlock callInstr callerToRet s6)"

definition mergeIfMany :: "(nat list \<Rightarrow> nat) \<Rightarrow> (nat \<Rightarrow> func_info) \<Rightarrow> nat \<times> nat list \<Rightarrow> ir \<Rightarrow> ir" where
  "mergeIfMany alloc M g s = (if length (snd g) > 1 then mergeGroup alloc M (fst g) (snd g) s else s)"

definition start :: "block list \<Rightarrow> ir" where
  "start F = \<lparr>blocks = F, next_id = Suc (Max (set (0 # ids F)))\<rparr>"

definition runOnFunction :: "(nat list \<Rightarrow> nat) \<Rightarrow> (nat \<Rightarrow> func_info) \<Rightarrow> block list \<Rightarrow> block list \<times> bool" where
  "runOnFunction alloc M F = (blocks (fold (mergeIfMany alloc M) (collect M F) (start F)), False)"

text \<open>An allocator never returns an address in use.\<close>

definition fresh_alloc :: "(nat list \<Rightarrow> nat) \<Rightarrow> bool" where
  "fresh_alloc alloc = (\<forall>xs. alloc xs \<notin> set xs)"

definition bump_alloc :: "nat list \<Rightarrow> nat" where
  "bump_alloc xs = Suc (Max (set (0 # xs)))"

section \<open>Notions used in the proofs\<close>

text \<open>
  The skeleton of an instruction keeps its number, its name, its opcode and its constant
  operands, and forgets which instruction results it reads and from which blocks a PHI
  node receives its values. Demotion and \<^verbatim>\<open>replaceAllUsesWith\<close> change operands only, so
  they keep skeletons.
\<close>

fun unlink :: "val \<Rightarrow> val" where
  "unlink (VInst i) = VInst 0"
| "unlink v = v"

fun unlink_callee :: "callee \<Rightarrow> callee" where
  "unlink_callee InlineAsm = InlineAsm"
| "unlink_callee (Indirect v) = Indirect (unlink v)"
| "unlink_callee (Direct t) = Direct t"

fun shape :: "kind \<Rightarrow> kind" where
  "shape Alloca = Alloca"
| "shape (BitCast v) = BitCast (unlink v)"
| "shape (Load p) = Load (unlink p)"
| "shape (Store v p) = Store (unlink v) (unlink p)"
| "shape (Call c args) = Call (unlink_callee c) (map unlink args)"
| "shape (PHI inc) = PHI (map (\<lambda>p. (NoOperand, 0)) inc)"
| "shape (Br b) = Br b"
| "shape (Switch v d cs) = Switch (unlink v) d cs"
| "shape (Other vs) = Other (map unlink vs)"
| "shape (Term vs bs) = Term (map unlink vs) bs"

definition skel :: "instr \<Rightarrow> instr" where
  "skel I = Instr (iid I) (iname I) (shape (ikind I))"

fun isCallk :: "kind \<Rightarrow> bool" where
  "isCallk (Call c args) = True"
| "isCallk k = False"

definition isCall :: "instr \<Rightarrow> bool" where
  "isCall I = isCallk (ikind I)"

text \<open>The instructions that demotion creates: stack slots, reloads and stores, numbered from \<open>lo\<close>.\<close>

fun isDemotek :: "kind \<Rightarrow> bool" where
  "isDemotek Alloca = True"
| "isDemotek (Load p) = True"
| "isDemotek (Store v p) = True"
| "isDemotek k = False"

definition newk :: "nat \<Rightarrow> instr \<Rightarrow> bool" where
  "newk lo n = (lo \<le> iid n \<and> isDemotek (ikind n))"

text \<open>
  \<open>ext N xs ys\<close>: the instruction list \<open>ys\<close> is \<open>xs\<close> with operands rewritten and with new
  instructions (those that satisfy \<open>N\<close>) inserted, each before an instruction of \<open>xs\<close>.
\<close>

inductive ext :: "(instr \<Rightarrow> bool) \<Rightarrow> instr list \<Rightarrow> instr list \<Rightarrow> bool" for N where
  ext_Nil: "ext N [] []"
| ext_keep: "ext N xs ys \<Longrightarrow> skel x = skel y \<Longrightarrow> ext N (x # xs) (y # ys)"
| ext_ins: "ext N (x # xs) ys \<Longrightarrow> N n \<Longrightarrow> ext N (x # xs) (n # ys)"

definition bext :: "(instr \<Rightarrow> bool) \<Rightarrow> block list \<Rightarrow> block list \<Rightarrow> bool" where
  "bext N F G = list_all2 (\<lambda>B C. baddr C = baddr B \<and> ext N (insts B) (insts C)) F G"

text \<open>The skeletons of a set \<open>S\<close> that a function holds, in layout order.\<close>

definition view :: "instr set \<Rightarrow> instr list \<Rightarrow> instr list" where
  "view S es = filter (\<lambda>k. k \<in> S) (map skel es)"

text \<open>Instruction numbers are distinct and below the next unused number; block addresses are distinct.\<close>

definition idinv :: "nat \<Rightarrow> block list \<Rightarrow> bool" where
  "idinv n F = (distinct (ids F) \<and> (\<forall>i \<in> set (ids F). i < n))"

definition ir_ok :: "ir \<Rightarrow> bool" where
  "ir_ok s = (distinct (addrs (blocks s)) \<and> idinv (next_id s) (blocks s))"

text \<open>\<open>idgrow n n' F G\<close>: the instructions of \<open>G\<close> are instructions of \<open>F\<close> or carry one of the unused numbers from \<open>n\<close> up to \<open>n'\<close>, each at most once.\<close>

definition idgrow :: "nat \<Rightarrow> nat \<Rightarrow> block list \<Rightarrow> block list \<Rightarrow> bool" where
  "idgrow n n' F G =
     (\<forall>a. count (mset (ids G)) a \<le> count (mset (ids F)) a + (if n \<le> a \<and> a < n' then 1 else 0))"

text \<open>Instruction \<open>j\<close> has a user in the function.\<close>

definition refd :: "nat \<Rightarrow> block list \<Rightarrow> bool" where
  "refd j F = (\<exists>U \<in> set (all_insts F). uses j U)"

text \<open>The new block's address is inserted after that of the split block.\<close>

fun addr_after :: "nat \<Rightarrow> nat \<Rightarrow> nat list \<Rightarrow> nat list" where
  "addr_after P R [] = []"
| "addr_after P R (a # as) = (if a = P then a # R # as else a # addr_after P R as)"

fun isStorek :: "kind \<Rightarrow> bool" where
  "isStorek (Store v p) = True"
| "isStorek k = False"

text \<open>
  \<open>umono lo F G\<close>: a use in \<open>G\<close> of an instruction numbered below \<open>lo\<close> is a use that \<open>F\<close>
  had already (by an instruction of the same skeleton), or it is the store of an
  instruction of \<open>F\<close>.
\<close>

definition umono :: "nat \<Rightarrow> block list \<Rightarrow> block list \<Rightarrow> bool" where
  "umono lo F G =
     (\<forall>j < lo. \<forall>U \<in> set (all_insts G). uses j U \<longrightarrow>
        (\<exists>V \<in> set (all_insts F). skel V = skel U \<and> uses j V)
        \<or> (isStorek (ikind U) \<and> j \<in> set (ids F)))"

text \<open>The skeletons of the call instructions of a function.\<close>

definition ccalls :: "instr list \<Rightarrow> instr set" where
  "ccalls es = {K \<in> skel ` set es. isCall K}"

definition cset :: "block list \<Rightarrow> instr set" where
  "cset F = ccalls (all_insts F)"

text \<open>
  \<open>benign lo A F G\<close>: what every step of the rewriting loop keeps. The instructions
  numbered below \<open>lo\<close>, but for those in \<open>A\<close>, stay in layout order; no call instruction
  appears or disappears; new instructions are numbered from \<open>lo\<close>.
\<close>

definition benign :: "nat \<Rightarrow> nat set \<Rightarrow> block list \<Rightarrow> block list \<Rightarrow> bool" where
  "benign lo A F G =
     ((\<forall>S. (\<forall>k \<in> S. iid k < lo \<and> iid k \<notin> A) \<longrightarrow> view S (all_insts G) = view S (all_insts F))
      \<and> umono lo F G
      \<and> set (ids G) \<subseteq> set (ids F) \<union> {lo ..}
      \<and> cset G = cset F)"


text \<open>
  What holds whenever the loop over the callers (lines 71-101) is about to take the
  callers \<open>cs\<close>: they stand in the function in this order, the blocks \<open>Ps\<close> that the loop
  has left behind hold none of them and end with the branch to the call block, and the
  call block is still empty.
\<close>

definition loop_pre :: "nat \<Rightarrow> nat set \<Rightarrow> nat \<Rightarrow> nat set \<Rightarrow> nat list \<Rightarrow> ir \<Rightarrow> bool" where
  "loop_pre lo A cb Ps cs s =
     (ir_ok s \<and> cb \<in> set (addrs (blocks s)) \<and> block_insts (blocks s) cb = []
      \<and> filter (\<lambda>i. i \<in> set cs) (ids (blocks s)) = cs
      \<and> Ps \<subseteq> set (addrs (blocks s))
      \<and> (\<forall>P \<in> Ps. (\<forall>I \<in> set (block_insts (blocks s) P). iid I \<notin> set cs)
            \<and> block_insts (blocks s) P \<noteq> [] \<and> ikind (last (block_insts (blocks s) P)) = Br cb)
      \<and> lo \<le> next_id s \<and> set cs \<subseteq> A \<and> (\<forall>c \<in> set cs. c < lo))"

text \<open>The callers that the collecting loop has recorded for a callee.\<close>

definition glookup :: "(nat \<times> nat list) list \<Rightarrow> nat \<Rightarrow> nat list" where
  "glookup m t = (case map_of m t of Some vs \<Rightarrow> vs | None \<Rightarrow> [])"

text \<open>
  The second half of the work on one group (lines 103-135), from the state \<open>s3\<close> and the
  two maps that the loop over the callers leaves.
\<close>

definition finishGroup ::
  "(nat \<Rightarrow> func_info) \<Rightarrow> nat \<Rightarrow> nat list \<Rightarrow> nat \<Rightarrow> (nat \<times> nat) list \<Rightarrow> (nat \<times> nat) list \<Rightarrow> ir \<Rightarrow> ir" where
  "finishGroup M target callers callBlock callerToRet callerToOrigParent s3 =
     (let st4 = buildArgs (arg_size (M target)) callers callerToOrigParent callBlock s3;
          callInstr = next_id (fst st4);
          s5 = emitCall target callBlock st4;
          s6 = s5\<lparr>blocks := replaceCallers callers callInstr (blocks s5)\<rparr>
      in routeBack callBlock callInstr callerToRet s6)"

text \<open>The instructions of the shared block, numbered from \<open>n3\<close>, for a callee with \<open>n\<close> parameters.\<close>

definition argPHIs :: "nat \<Rightarrow> nat \<Rightarrow> nat list \<Rightarrow> (nat \<times> nat) list \<Rightarrow> block list \<Rightarrow> instr list" where
  "argPHIs n3 n callers cOP F = map (\<lambda>i. Instr (n3 + i) [] (argPHI callers cOP F i)) [0..<n]"

definition newCall :: "nat \<Rightarrow> nat \<Rightarrow> nat \<Rightarrow> instr" where
  "newCall n3 n t = Instr (n3 + n) [] (Call (Direct t) (map (\<lambda>i. VInst (n3 + i)) [0..<n]))"

definition whereFrom :: "nat \<Rightarrow> nat \<Rightarrow> (nat \<times> nat) list \<Rightarrow> instr" where
  "whereFrom n3 n cTR = Instr (Suc (n3 + n)) [] (PHI (fst (route_loop cTR 0 [] [])))"

definition switchBack :: "nat \<Rightarrow> nat \<Rightarrow> (nat \<times> nat) list \<Rightarrow> instr" where
  "switchBack n3 n cTR =
     Instr (Suc (Suc (n3 + n))) [] (Switch (VInst (Suc (n3 + n))) (snd (hd cTR)) (snd (route_loop cTR 0 [] [])))"
section \<open>Example functions\<close>

text \<open>
  The callee at address 100 takes one argument, the callee at address 200 is an
  intrinsic, every other callee takes no argument.
\<close>

definition M0 :: "nat \<Rightarrow> func_info" where
  "M0 f = \<lparr>isIntrinsic = (f = 200), arg_size = (if f = 100 then 1 else 0)\<rparr>"



text \<open>
  Two calls to the callee 100 in two blocks; the block that comes first in the function
  has the higher address.
\<close>

definition F_order :: "block list" where
  "F_order =
     [Block 50 [Instr 1 [] (Call (Direct 100) [VArg 0]), Instr 2 [] (Term [] [30])],
      Block 30 [Instr 3 [] (Call (Direct 100) [VArg 1]), Instr 4 [] (Term [] [])]]"

text \<open>One block; both calls to the callee 100 pass the result of instruction 1.\<close>

definition F_shared :: "block list" where
  "F_shared =
     [Block 10 [Instr 1 ''x'' (Other [VArg 0]),
                Instr 2 [] (Call (Direct 100) [VInst 1]),
                Instr 3 [] (Call (Direct 100) [VInst 1]),
                Instr 4 [] (Term [] [])]]"

text \<open>
  One block; two calls to the callee 100 and between them a call to the intrinsic 200
  that reads the result of instruction 1.
\<close>

definition F_intrinsic :: "block list" where
  "F_intrinsic =
     [Block 10 [Instr 1 ''x'' (Other [VArg 0]),
                Instr 2 [] (Call (Direct 100) [VInst 1]),
                Instr 3 ''i'' (Call (Direct 200) [VInst 1]),
                Instr 4 [] (Call (Direct 100) [VArg 1]),
                Instr 5 [] (Term [] [])]]"
section \<open>The escape test\<close>





section \<open>The value returned to the pass manager\<close>

text \<open>
  Claim C7. For every input function \<open>runOnFunction\<close> returns false, also when it merged
  groups and rebuilt the control flow of the function.
\<close>

theorem runOnFunction_reports_no_change: "snd (runOnFunction alloc M F) = False"
  by (simp add: runOnFunction_def)

section \<open>Skeletons and extensions of instruction lists\<close>

lemma skel_simps [simp]: "iid (skel I) = iid I" "iname (skel I) = iname I"
  by (simp_all add: skel_def)

lemma unlink_idem [simp]: "unlink (unlink v) = unlink v"
  by (cases v) auto

lemma shape_idem [simp]: "shape (shape k) = shape k"
  by (cases k) (auto, (rename_tac c l, case_tac c, auto))

lemma skel_idem [simp]: "skel (skel I) = skel I"
  by (simp add: skel_def)

lemma ext_refl [simp]: "ext N xs xs"
  by (induction xs) (auto intro: ext.intros)

lemma ext_Nil_iff: "ext N xs ys \<Longrightarrow> (xs = [] \<longleftrightarrow> ys = [])"
  by (induction rule: ext.induct) auto

lemma ext_Nil_left [simp]: "ext N [] ys \<longleftrightarrow> ys = []"
  using ext_Nil_iff[of N "[]" ys] by (auto intro: ext.intros)

lemma ext_Nil_right [simp]: "ext N xs [] \<longleftrightarrow> xs = []"
  using ext_Nil_iff[of N xs "[]"] by (auto intro: ext.intros)

lemma ext_mono: "ext N xs ys \<Longrightarrow> (\<And>n. N n \<Longrightarrow> N' n) \<Longrightarrow> ext N' xs ys"
  by (induction rule: ext.induct) (auto intro: ext.intros)

lemma ext_Cons_right:
  "ext N xs (y # ys) \<Longrightarrow>
     (\<exists>x xs'. xs = x # xs' \<and> ((skel x = skel y \<and> ext N xs' ys) \<or> (N y \<and> ext N xs ys)))"
  by (erule ext.cases) auto

lemma ext_trans:
  assumes N: "\<And>a b. skel a = skel b \<Longrightarrow> N a = N b"
  shows "ext N ys zs \<Longrightarrow> ext N xs ys \<Longrightarrow> ext N xs zs"
proof (induction arbitrary: xs rule: ext.induct)
  case ext_Nil
  then show ?case by simp
next
  case (ext_keep ys zs y z)
  from ext_Cons_right[OF ext_keep.prems] obtain x xs' where
    x: "xs = x # xs'" "(skel x = skel y \<and> ext N xs' ys) \<or> (N y \<and> ext N xs ys)" by blast
  from x(2) show ?case
  proof
    assume "skel x = skel y \<and> ext N xs' ys"
    then show ?thesis using ext_keep x(1) by (auto intro: ext.intros)
  next
    assume a: "N y \<and> ext N xs ys"
    then have "N z" using N[OF ext_keep.hyps(2)] by simp
    moreover have "ext N xs zs" using a ext_keep.IH by blast
    ultimately show ?thesis using x(1) by (auto intro: ext.intros)
  qed
next
  case (ext_ins y ys zs n)
  from ext_ins.prems obtain x xs' where "xs = x # xs'"
    by (cases xs) auto
  then show ?case using ext_ins by (auto intro: ext.intros)
qed

lemma ext_append: "ext N xs ys \<Longrightarrow> ext N xs' ys' \<Longrightarrow> ext N (xs @ xs') (ys @ ys')"
  by (induction rule: ext.induct) (auto intro: ext.intros)

lemma ext_view:
  "ext N xs ys \<Longrightarrow> (\<And>n. N n \<Longrightarrow> skel n \<notin> S) \<Longrightarrow> view S ys = view S xs"
  by (induction rule: ext.induct) (auto simp: view_def)

lemma ext_last: "ext N xs ys \<Longrightarrow> xs \<noteq> [] \<Longrightarrow> skel (last ys) = skel (last xs)"
  by (induction rule: ext.induct) (auto split: if_splits)

lemma ext_set_old: "ext N xs ys \<Longrightarrow> skel ` set xs \<subseteq> skel ` set ys"
  by (induction rule: ext.induct) auto

lemma ext_set_new: "ext N xs ys \<Longrightarrow> y \<in> set ys \<Longrightarrow> N y \<or> skel y \<in> skel ` set xs"
  by (induction rule: ext.induct) auto

lemma newk_skel: "skel a = skel b \<Longrightarrow> newk lo a = newk lo b"
  by (cases a; cases b; cases "ikind a"; cases "ikind b") (auto simp: newk_def skel_def)

lemma newk_mono: "newk lo n \<Longrightarrow> lo' \<le> lo \<Longrightarrow> newk lo' n"
  by (auto simp: newk_def)

lemma bext_refl [simp]: "bext N F F"
  by (simp add: bext_def list_all2_refl)

lemma bext_trans:
  assumes N: "\<And>a b. skel a = skel b \<Longrightarrow> N a = N b"
  shows "bext N F G \<Longrightarrow> bext N G H \<Longrightarrow> bext N F H"
proof -
  assume a: "bext N F G" "bext N G H"
  have "list_all2 (\<lambda>B C. baddr C = baddr B \<and> ext N (insts B) (insts C)) F H"
  proof (rule list_all2_trans[where ?P1.0 = "\<lambda>B C. baddr C = baddr B \<and> ext N (insts B) (insts C)"
        and ?P2.0 = "\<lambda>B C. baddr C = baddr B \<and> ext N (insts B) (insts C)"])
    fix a b c
    assume "baddr b = baddr a \<and> ext N (insts a) (insts b)" "baddr c = baddr b \<and> ext N (insts b) (insts c)"
    then show "baddr c = baddr a \<and> ext N (insts a) (insts c)"
      using ext_trans[OF N] by auto
  qed (use a in \<open>auto simp: bext_def\<close>)
  then show ?thesis by (simp add: bext_def)
qed

lemma bext_mono: "bext N F G \<Longrightarrow> (\<And>n. N n \<Longrightarrow> N' n) \<Longrightarrow> bext N' F G"
  unfolding bext_def by (erule list_all2_mono) (auto intro: ext_mono)

lemma bext_addrs: "bext N F G \<Longrightarrow> addrs G = addrs F"
  unfolding bext_def addrs_def
  by (induction F G rule: list_all2_induct) auto

lemma bext_all_insts: "bext N F G \<Longrightarrow> ext N (all_insts F) (all_insts G)"
  unfolding bext_def all_insts_def
  by (induction F G rule: list_all2_induct) (auto intro: ext_append)

lemma bext_block_insts: "bext N F G \<Longrightarrow> ext N (block_insts F a) (block_insts G a)"
  unfolding bext_def block_insts_def
  by (induction F G rule: list_all2_induct) auto

lemma bext_Nil [simp]: "bext N [] G \<longleftrightarrow> G = []" "bext N F [] \<longleftrightarrow> F = []"
  by (auto simp: bext_def)

lemma bext_Cons:
  "bext N (B # F) (C # G) \<longleftrightarrow> baddr C = baddr B \<and> ext N (insts B) (insts C) \<and> bext N F G"
  by (auto simp: bext_def)

lemma ext_has_id:
  "ext N xs ys \<Longrightarrow> (\<And>n. N n \<Longrightarrow> iid n \<noteq> c) \<Longrightarrow> c \<in> iid ` set ys \<longleftrightarrow> c \<in> iid ` set xs"
proof (induction rule: ext.induct)
  case ext_Nil
  then show ?case by simp
next
  case (ext_keep xs ys x y)
  have "iid x = iid y" using ext_keep.hyps(2) by (metis skel_simps(1))
  then show ?case using ext_keep by auto
next
  case (ext_ins x xs ys n)
  then show ?case by auto
qed

lemma bext_getParent:
  "bext N F G \<Longrightarrow> (\<And>n. N n \<Longrightarrow> iid n \<noteq> c) \<Longrightarrow> getParent G c = getParent F c"
  unfolding bext_def getParent_def
proof (induction F G rule: list_all2_induct)
  case Nil
  then show ?case by simp
next
  case (Cons B F C G)
  have "has_inst c C \<longleftrightarrow> has_inst c B"
    using ext_has_id[of N "insts B" "insts C" c] Cons.hyps(1) Cons.prems
    by (auto simp: has_inst_def)
  then show ?case using Cons by auto
qed

lemma bext_view:
  "bext N F G \<Longrightarrow> (\<And>n. N n \<Longrightarrow> skel n \<notin> S) \<Longrightarrow> view S (all_insts G) = view S (all_insts F)"
  using bext_all_insts ext_view by blast

lemma bext_at_block:
  "(\<And>xs. ext N xs (f xs)) \<Longrightarrow> bext N F (at_block a f F)"
  by (induction F) (auto simp: bext_Cons map_insts_def)

lemma bext_at_inst:
  "(\<And>xs. ext N xs (f xs)) \<Longrightarrow> bext N F (at_inst i f F)"
  by (induction F) (auto simp: bext_Cons map_insts_def)

lemma bext_map:
  "(\<And>xs. ext N xs (f xs)) \<Longrightarrow> bext N F (map (map_insts f) F)"
  by (induction F) (auto simp: bext_Cons map_insts_def)

lemma ext_map_skel: "(\<And>x. skel (f x) = skel x) \<Longrightarrow> ext N xs (map f xs)"
  by (induction xs) (auto intro: ext.intros)

lemma ext_ins_before: "N new \<Longrightarrow> ext N xs (ins_before x new xs)"
  by (induction xs) (auto intro: ext.intros)

lemma ext_ins_store: "N st \<Longrightarrow> ext N xs (ins_store i st xs)"
proof (induction xs)
  case Nil
  then show ?case by simp
next
  case (Cons x xs)
  have "dropWhile isPHI xs \<noteq> [] \<Longrightarrow> ext N xs (takeWhile isPHI xs @ st # dropWhile isPHI xs)"
  proof -
    assume a: "dropWhile isPHI xs \<noteq> []"
    then obtain d ds where d: "dropWhile isPHI xs = d # ds" by (cases "dropWhile isPHI xs") auto
    have "ext N (d # ds) (st # d # ds)" using Cons.prems by (auto intro: ext.intros)
    then have "ext N (takeWhile isPHI xs @ d # ds) (takeWhile isPHI xs @ st # d # ds)"
      by (intro ext_append) auto
    then show ?thesis using d by (metis takeWhile_dropWhile_id)
  qed
  then show ?case using Cons by (auto intro: ext.intros)
qed

lemma ext_before_last: "N new \<Longrightarrow> xs \<noteq> [] \<Longrightarrow> ext N xs (butlast xs @ [new, last xs])"
proof -
  assume a: "N new" "xs \<noteq> []"
  have "ext N [last xs] [new, last xs]" using a(1) by (auto intro: ext.intros)
  then have "ext N (butlast xs @ [last xs]) (butlast xs @ [new, last xs])"
    by (intro ext_append) auto
  then show ?thesis using a(2) by simp
qed

lemma bext_insertBeforeTerminator: "N new \<Longrightarrow> bext N F (insertBeforeTerminator a new F)"
  unfolding insertBeforeTerminator_def
  by (rule bext_at_block) (auto simp: getTerminator_def ext_before_last)

lemma bext_insertBefore: "N new \<Longrightarrow> bext N F (insertBefore x new F)"
  unfolding insertBefore_def by (rule bext_at_inst) (rule ext_ins_before)

lemma bext_insertStore: "N st \<Longrightarrow> bext N F (insertStore i st F)"
  unfolding insertStore_def by (rule bext_at_inst) (rule ext_ins_store)

lemma unlink_subst [simp]: "unlink (subst (VInst a) (VInst b) v) = unlink v"
  by (cases v) (auto simp: subst_def)

lemma shape_map_operands:
  "(\<And>v. unlink (f v) = unlink v) \<Longrightarrow> shape (map_operands f k) = shape k"
  by (cases k) (auto, (rename_tac c l, case_tac c, auto))

lemma skel_replaceUsesOfWith [simp]: "skel (replaceUsesOfWith (VInst a) (VInst b) U) = skel U"
  by (simp add: skel_def replaceUsesOfWith_def shape_map_operands)

lemma skel_replaceIncomingBlockWith [simp]: "skel (replaceIncomingBlockWith old new U) = skel U"
  by (cases U) (auto simp: skel_def replaceIncomingBlockWith_def split: kind.splits)

lemma skel_reload_phi [simp]: "skel (reload_phi I tab U) = skel U"
  by (cases U) (auto simp: skel_def reload_phi_def split: kind.splits)

lemma newk_Load [simp]: "newk lo (Instr n nm (Load p)) \<longleftrightarrow> lo \<le> n"
  and newk_Store [simp]: "newk lo (Instr n nm (Store v p)) \<longleftrightarrow> lo \<le> n"
  and newk_Alloca [simp]: "newk lo (Instr n nm Alloca) \<longleftrightarrow> lo \<le> n"
  by (auto simp: newk_def)

lemma ext_reload_list: "lo \<le> n \<Longrightarrow> ext (newk lo) xs (reload_list I nm slot n xs)"
proof (induction xs arbitrary: n)
  case Nil
  then show ?case by simp
next
  case (Cons U xs)
  show ?case
  proof (cases "uses I U \<and> \<not> isPHI U")
    case True
    have "ext (newk lo) (U # xs) (replaceUsesOfWith (VInst I) (VInst n) U # reload_list I nm slot (Suc n) xs)"
      using Cons.IH[of "Suc n"] Cons.prems by (auto intro: ext.intros)
    then show ?thesis using True Cons.prems by (auto intro: ext.intros)
  next
    case False
    then show ?thesis using Cons by (auto intro: ext.intros)
  qed
qed

lemma bext_reload_blocks: "lo \<le> n \<Longrightarrow> bext (newk lo) F (reload_blocks I nm slot n F)"
  by (induction F arbitrary: n) (auto simp: bext_Cons map_insts_def ext_reload_list)

lemma bext_reload_phi: "bext N F (map (map_insts (map (reload_phi I tab))) F)"
  by (rule bext_map) (simp add: ext_map_skel)

lemma bext_replaceAllUsesWith: "bext N F (replaceAllUsesWith a b F)"
  unfolding replaceAllUsesWith_def by (rule bext_map) (simp add: ext_map_skel)

lemma bext_newk_trans: "bext (newk lo) F G \<Longrightarrow> bext (newk lo) G H \<Longrightarrow> bext (newk lo) F H"
  by (rule bext_trans[of "newk lo"]) (auto dest: newk_skel)

lemma bext_phi_loads:
  "(\<forall>e \<in> set tab. lo \<le> snd e) \<Longrightarrow>
   bext (newk lo) F (fold (\<lambda>((u, b), ld). insertBeforeTerminator b (Instr ld nm (Load p))) tab F)"
proof (induction tab arbitrary: F)
  case Nil
  then show ?case by simp
next
  case (Cons e tab)
  obtain u b ld where e: "e = ((u, b), ld)" by (cases e) auto
  have "bext (newk lo) F (insertBeforeTerminator b (Instr ld nm (Load p)) F)"
    using Cons.prems e by (intro bext_insertBeforeTerminator) simp
  moreover have "bext (newk lo) (insertBeforeTerminator b (Instr ld nm (Load p)) F)
      (fold (\<lambda>((u, b), ld). insertBeforeTerminator b (Instr ld nm (Load p))) tab
         (insertBeforeTerminator b (Instr ld nm (Load p)) F))"
    using Cons by simp
  ultimately show ?case using e by (auto intro: bext_newk_trans)
qed

lemma DemoteRegToStack_bext:
  assumes "users (blocks s) I \<noteq> []"
  shows "bext (newk (next_id s)) (blocks s) (blocks (DemoteRegToStack I AP s))"
proof -
  define lo where "lo = next_id s"
  define nm where "nm = (case find_inst (blocks s) I of Some Inst \<Rightarrow> iname Inst | None \<Rightarrow> [])"
  define F1 where "F1 = insertBefore AP (Instr lo (nm @ ''.reg2mem'') Alloca) (blocks s)"
  define F2 where "F2 = reload_blocks I nm lo (Suc lo) F1"
  define n2 where "n2 = Suc lo + n_reloads I (all_insts F1)"
  define tab where "tab = zip (phi_reqs I F2) [n2 ..< n2 + length (phi_reqs I F2)]"
  define F3 where "F3 = map (map_insts (map (reload_phi I tab))) F2"
  define F4 where "F4 = fold (\<lambda>((u, b), ld). insertBeforeTerminator b (Instr ld (nm @ ''.reload'') (Load (VInst lo)))) tab F3"
  define F5 where "F5 = insertStore I (Instr (n2 + length tab) [] (Store (VInst I) (VInst lo))) F4"
  have res: "blocks (DemoteRegToStack I AP s) = F5"
    using assms unfolding DemoteRegToStack_def Let_def F5_def F4_def F3_def tab_def n2_def F2_def F1_def nm_def lo_def
    by simp
  have b1: "bext (newk lo) (blocks s) F1"
    unfolding F1_def by (rule bext_insertBefore) simp
  have b2: "bext (newk lo) F1 F2"
    unfolding F2_def by (rule bext_reload_blocks) simp
  have b3: "bext (newk lo) F2 F3"
    unfolding F3_def by (rule bext_reload_phi)
  have "\<forall>e \<in> set tab. lo \<le> snd e"
    unfolding tab_def n2_def by (auto dest!: set_zip_rightD)
  then have b4: "bext (newk lo) F3 F4"
    unfolding F4_def by (rule bext_phi_loads)
  have b5: "bext (newk lo) F4 F5"
    unfolding F5_def by (rule bext_insertStore) (simp add: n2_def)
  show ?thesis
    using b1 b2 b3 b4 b5 res lo_def by (metis bext_newk_trans)
qed

section \<open>Instruction numbers stay distinct\<close>

lemma ids_Cons [simp]: "ids (B # Bs) = map iid (insts B) @ ids Bs" and ids_Nil [simp]: "ids [] = []"
  by (simp_all add: ids_def all_insts_def)

lemma all_insts_Cons [simp]: "all_insts (B # Bs) = insts B @ all_insts Bs"
  and all_insts_Nil [simp]: "all_insts [] = []"
  by (simp_all add: all_insts_def)

lemma ids_append [simp]: "ids (F @ G) = ids F @ ids G"
  by (simp add: ids_def all_insts_def)

lemma insts_map_insts [simp]: "insts (map_insts f B) = f (insts B)"
  and baddr_map_insts [simp]: "baddr (map_insts f B) = baddr B"
  by (simp_all add: map_insts_def)

lemma idgrow_refl: "idgrow n n' F F"
  by (simp add: idgrow_def)

lemma idgrow_trans:
  assumes "idgrow n n' F G" "idgrow n' n'' G H" "n \<le> n'" "n' \<le> n''"
  shows "idgrow n n'' F H"
  unfolding idgrow_def
proof
  fix a
  have 1: "count (mset (ids H)) a \<le> count (mset (ids G)) a + (if n' \<le> a \<and> a < n'' then 1 else 0)"
    using assms(2) by (simp add: idgrow_def)
  have 2: "count (mset (ids G)) a \<le> count (mset (ids F)) a + (if n \<le> a \<and> a < n' then 1 else 0)"
    using assms(1) by (simp add: idgrow_def)
  show "count (mset (ids H)) a \<le> count (mset (ids F)) a + (if n \<le> a \<and> a < n'' then 1 else 0)"
    using 1 2 assms(3,4) by (auto split: if_splits)
qed

lemma idgrow_mono: "idgrow a b F G \<Longrightarrow> n \<le> a \<Longrightarrow> b \<le> n' \<Longrightarrow> idgrow n n' F G"
  unfolding idgrow_def
  by (intro allI, erule_tac x = aa in allE) (auto split: if_splits)

lemma notin_count: "a \<notin> set xs \<Longrightarrow> count (mset xs) a = 0"
  by simp

lemma in_count: "a \<in> set xs \<Longrightarrow> 0 < count (mset xs) a"
  by simp

lemma count_pos_in: "0 < count (mset xs) a \<Longrightarrow> a \<in> set xs"
  by simp

lemma count_le_1_distinct: "(\<And>a. count (mset xs) a \<le> 1) \<Longrightarrow> distinct xs"
proof (induction xs)
  case Nil
  then show ?case by simp
next
  case (Cons x xs)
  have "count (mset (x # xs)) x \<le> 1" using Cons.prems by blast
  then have "count (mset xs) x = 0" by simp
  then have "x \<notin> set xs" by simp
  moreover have "\<And>a. count (mset xs) a \<le> 1"
  proof -
    fix a
    have "count (mset (x # xs)) a \<le> 1" using Cons.prems by blast
    moreover have "count (mset xs) a \<le> count (mset (x # xs)) a" by simp
    ultimately show "count (mset xs) a \<le> 1" by linarith
  qed
  ultimately show ?case using Cons.IH by simp
qed

lemma idgrow_idinv:
  assumes "idgrow n n' F G" "idinv n F" "n \<le> n'"
  shows "idinv n' G"
proof -
  have c: "\<And>a. count (mset (ids G)) a \<le> count (mset (ids F)) a + (if n \<le> a \<and> a < n' then 1 else 0)"
    using assms(1) by (simp add: idgrow_def)
  have dF: "distinct (ids F)" and bF: "\<And>i. i \<in> set (ids F) \<Longrightarrow> i < n"
    using assms(2) by (auto simp: idinv_def)
  have "\<And>a. count (mset (ids G)) a \<le> 1"
  proof -
    fix a
    have e: "count (mset (ids F)) a = (if a \<in> set (ids F) then 1 else 0)"
      using dF distinct_count_atmost_1 by metis
    show "count (mset (ids G)) a \<le> 1"
    proof (cases "a \<in> set (ids F)")
      case True
      then have "\<not> n \<le> a" using bF[of a] by simp
      then show ?thesis using c[of a] e True by simp
    next
      case False
      then have "count (mset (ids F)) a = 0" by (rule notin_count)
      moreover have "(if n \<le> a \<and> a < n' then 1 else 0::nat) \<le> 1" by simp
      ultimately show ?thesis using c[of a] by linarith
    qed
  qed
  then have "distinct (ids G)" by (rule count_le_1_distinct)
  moreover have "\<And>a. a \<in> set (ids G) \<Longrightarrow> a < n'"
  proof -
    fix a assume "a \<in> set (ids G)"
    then have p: "0 < count (mset (ids G)) a" by (rule in_count)
    show "a < n'"
    proof (cases "n \<le> a \<and> a < n'")
      case True
      then show ?thesis by simp
    next
      case False
      then have "(if n \<le> a \<and> a < n' then 1 else 0::nat) = 0" by simp
      then have "0 < count (mset (ids F)) a" using c[of a] p by linarith
      then have "a \<in> set (ids F)" by (rule count_pos_in)
      then show ?thesis using bF[of a] assms(3) by simp
    qed
  qed
  ultimately show ?thesis by (auto simp: idinv_def)
qed

lemma idgrow_set: "idgrow n n' F G \<Longrightarrow> set (ids G) \<subseteq> set (ids F) \<union> {n ..< n'}"
proof
  fix a assume g: "idgrow n n' F G" and "a \<in> set (ids G)"
  then have p: "0 < count (mset (ids G)) a" by (intro in_count)
  have c: "count (mset (ids G)) a \<le> count (mset (ids F)) a + (if n \<le> a \<and> a < n' then 1 else 0)"
    using g by (simp add: idgrow_def)
  show "a \<in> set (ids F) \<union> {n ..< n'}"
  proof (cases "n \<le> a \<and> a < n'")
    case True
    then show ?thesis by simp
  next
    case False
    then have "(if n \<le> a \<and> a < n' then 1 else 0::nat) = 0" by simp
    then have "0 < count (mset (ids F)) a" using c p by linarith
    then have "a \<in> set (ids F)" by (rule count_pos_in)
    then show ?thesis by simp
  qed
qed

lemma ids_at_block:
  "(\<And>xs. mset (map iid (f xs)) \<subseteq># mset (map iid xs) + A) \<Longrightarrow>
   mset (ids (at_block a f F)) \<subseteq># mset (ids F) + A"
proof (induction F)
  case Nil
  then show ?case by simp
next
  case (Cons B F)
  show ?case
  proof (cases "baddr B = a")
    case True
    have "mset (map iid (f (insts B))) + mset (ids F) \<subseteq># (mset (map iid (insts B)) + A) + mset (ids F)"
      using Cons.prems by (intro subset_mset.add_right_mono)
    then show ?thesis using True by (simp add: ac_simps)
  next
    case False
    have "mset (map iid (insts B)) + mset (ids (at_block a f F)) \<subseteq># mset (map iid (insts B)) + (mset (ids F) + A)"
      using Cons by (intro subset_mset.add_left_mono) blast
    then show ?thesis using False by (simp add: ac_simps)
  qed
qed

lemma ids_at_inst:
  "(\<And>xs. mset (map iid (f xs)) \<subseteq># mset (map iid xs) + A) \<Longrightarrow>
   mset (ids (at_inst i f F)) \<subseteq># mset (ids F) + A"
proof (induction F)
  case Nil
  then show ?case by simp
next
  case (Cons B F)
  show ?case
  proof (cases "has_inst i B")
    case True
    have "mset (map iid (f (insts B))) + mset (ids F) \<subseteq># (mset (map iid (insts B)) + A) + mset (ids F)"
      using Cons.prems by (intro subset_mset.add_right_mono)
    then show ?thesis using True by (simp add: ac_simps)
  next
    case False
    have "mset (map iid (insts B)) + mset (ids (at_inst i f F)) \<subseteq># mset (map iid (insts B)) + (mset (ids F) + A)"
      using Cons by (intro subset_mset.add_left_mono) blast
    then show ?thesis using False by (simp add: ac_simps)
  qed
qed

lemma ids_map_same: "(\<And>x. iid (f x) = iid x) \<Longrightarrow> ids (map (map_insts (map f)) F) = ids F"
  by (induction F) auto

lemma mset_ids_ins_before: "mset (map iid (ins_before x new xs)) \<subseteq># mset (map iid xs) + {#iid new#}"
  by (induction xs) auto

lemma mset_ids_ins_store: "mset (map iid (ins_store i st xs)) \<subseteq># mset (map iid xs) + {#iid st#}"
proof (induction xs)
  case Nil
  then show ?case by simp
next
  case (Cons x xs)
  have "mset (takeWhile isPHI xs @ st # dropWhile isPHI xs) = mset (takeWhile isPHI xs @ dropWhile isPHI xs) + {#st#}"
    by (simp del: takeWhile_dropWhile_id)
  then have "mset (takeWhile isPHI xs @ st # dropWhile isPHI xs) = mset xs + {#st#}"
    by (simp only: takeWhile_dropWhile_id)
  then have "image_mset iid (mset (takeWhile isPHI xs @ st # dropWhile isPHI xs)) = image_mset iid (mset xs + {#st#})"
    by (simp only:)
  then have "mset (map iid (takeWhile isPHI xs @ st # dropWhile isPHI xs)) = mset (map iid xs) + {#iid st#}"
    by (simp only: mset_map image_mset_union image_mset_single)
  then show ?case using Cons by auto
qed

lemma mset_ids_before_term:
  "mset (map iid (case getTerminator es of Some T \<Rightarrow> butlast es @ [new, T] | None \<Rightarrow> es))
     \<subseteq># mset (map iid es) + {#iid new#}"
proof (cases "getTerminator es")
  case None
  then show ?thesis by simp
next
  case (Some T)
  then have "es \<noteq> []" "T = last es" by (auto simp: getTerminator_def split: if_splits)
  then have "map iid es = map iid (butlast es @ [T])" by simp
  then have "mset (map iid es) = mset (map iid (butlast es)) + {#iid T#}"
    by (simp only: map_append mset_append) simp
  then show ?thesis using Some by simp
qed

lemma idgrow_single:
  "mset (ids G) \<subseteq># mset (ids F) + {#j#} \<Longrightarrow> idgrow j (Suc j) F G"
  unfolding idgrow_def
proof
  fix a
  assume "mset (ids G) \<subseteq># mset (ids F) + {#j#}"
  then have "count (mset (ids G)) a \<le> count (mset (ids F) + {#j#}) a"
    by (rule mset_subset_eq_count)
  then show "count (mset (ids G)) a \<le> count (mset (ids F)) a + (if j \<le> a \<and> a < Suc j then 1 else 0)"
    by (auto split: if_splits)
qed

lemma idgrow_insertBefore: "idgrow (iid new) (Suc (iid new)) F (insertBefore x new F)"
  unfolding insertBefore_def
  by (intro idgrow_single ids_at_inst mset_ids_ins_before)

lemma idgrow_insertStore: "idgrow (iid st) (Suc (iid st)) F (insertStore i st F)"
  unfolding insertStore_def
  by (intro idgrow_single ids_at_inst mset_ids_ins_store)

lemma idgrow_insertBeforeTerminator: "idgrow (iid new) (Suc (iid new)) F (insertBeforeTerminator a new F)"
  unfolding insertBeforeTerminator_def
  by (intro idgrow_single ids_at_block mset_ids_before_term)

lemma idgrow_append_inst: "idgrow (iid new) (Suc (iid new)) F (append_inst a new F)"
  unfolding append_inst_def
  by (intro idgrow_single ids_at_block) simp

lemma mset_ids_erase1: "mset (map iid (erase1 i xs)) \<subseteq># mset (map iid xs) + {#}"
  by (induction xs) auto

lemma idgrow_eraseFromParent: "idgrow n n F (eraseFromParent i F)"
proof -
  have "mset (ids (eraseFromParent i F)) \<subseteq># mset (ids F)"
    unfolding eraseFromParent_def
    using ids_at_inst[of "erase1 i" "{#}" i F] mset_ids_erase1 by simp
  then have "\<And>a. count (mset (ids (eraseFromParent i F))) a \<le> count (mset (ids F)) a"
    by (rule mset_subset_eq_count)
  then show ?thesis by (simp add: idgrow_def)
qed

lemma ids_replaceAllUsesWith [simp]: "ids (replaceAllUsesWith a b F) = ids F"
  unfolding replaceAllUsesWith_def by (rule ids_map_same) (simp add: replaceUsesOfWith_def)

lemma ids_reload_phi [simp]: "ids (map (map_insts (map (reload_phi I tab))) F) = ids F"
  by (rule ids_map_same) (auto simp: reload_phi_def split: kind.splits)

lemma upt_shift: "[n ..< n + Suc k] = n # [Suc n ..< Suc n + k]"
proof -
  have "[n ..< n + Suc k] = n # [Suc n ..< n + Suc k]" by (rule upt_conv_Cons) simp
  then show ?thesis by simp
qed

lemma ids_reload_list:
  "count (mset (map iid (reload_list I nm slot n xs))) a =
     count (mset (map iid xs)) a + (if n \<le> a \<and> a < n + n_reloads I xs then 1 else 0)"
proof (induction xs arbitrary: n)
  case Nil
  then show ?case by (simp add: n_reloads_def)
next
  case (Cons U xs)
  show ?case
  proof (cases "uses I U \<and> \<not> isPHI U")
    case True
    then have "n_reloads I (U # xs) = Suc (n_reloads I xs)" by (auto simp: n_reloads_def)
    then show ?thesis using True Cons[of "Suc n"] by (auto simp: replaceUsesOfWith_def)
  next
    case False
    then have "n_reloads I (U # xs) = n_reloads I xs" by (auto simp: n_reloads_def)
    then show ?thesis using False Cons[of n] by auto
  qed
qed

lemma n_reloads_append [simp]: "n_reloads I (xs @ ys) = n_reloads I xs + n_reloads I ys"
  by (simp add: n_reloads_def)

lemma ids_reload_blocks:
  "count (mset (ids (reload_blocks I nm slot n F))) a =
     count (mset (ids F)) a + (if n \<le> a \<and> a < n + n_reloads I (all_insts F) then 1 else 0)"
proof (induction F arbitrary: n)
  case Nil
  then show ?case by (simp add: n_reloads_def)
next
  case (Cons B F)
  show ?case
    using Cons[of "n + n_reloads I (insts B)"] ids_reload_list[of I nm slot n "insts B" a]
    by (auto split: if_splits)
qed

lemma idgrow_reload_blocks:
  "idgrow n (n + n_reloads I (all_insts F)) F (reload_blocks I nm slot n F)"
  by (simp add: idgrow_def ids_reload_blocks)

lemma idgrow_phi_loads:
  "idgrow m (m + length reqs) F
     (fold (\<lambda>((u, b), ld). insertBeforeTerminator b (Instr ld nm (Load p))) (zip reqs [m ..< m + length reqs]) F)"
proof (induction reqs arbitrary: m F)
  case Nil
  then show ?case by (simp add: idgrow_refl)
next
  case (Cons r reqs)
  obtain u b where r: "r = (u, b)" by (cases r) auto
  have z: "zip (r # reqs) [m ..< m + length (r # reqs)] = (r, m) # zip reqs [Suc m ..< Suc m + length reqs]"
    using upt_shift[of m "length reqs"] by simp
  have 1: "idgrow m (Suc m) F (insertBeforeTerminator b (Instr m nm (Load p)) F)"
    using idgrow_insertBeforeTerminator[of "Instr m nm (Load p)" F b] by simp
  have 2: "idgrow (Suc m) (Suc m + length reqs) (insertBeforeTerminator b (Instr m nm (Load p)) F)
     (fold (\<lambda>((u, b), ld). insertBeforeTerminator b (Instr ld nm (Load p))) (zip reqs [Suc m ..< Suc m + length reqs])
        (insertBeforeTerminator b (Instr m nm (Load p)) F))"
    by (rule Cons.IH)
  show ?case unfolding z using idgrow_trans[OF 1 2] r by simp
qed

lemma next_id_DemoteRegToStack: "next_id s \<le> next_id (DemoteRegToStack I AP s)"
  by (simp add: DemoteRegToStack_def Let_def)

lemma DemoteRegToStack_idgrow:
  "idgrow (next_id s) (next_id (DemoteRegToStack I AP s)) (blocks s) (blocks (DemoteRegToStack I AP s))"
proof (cases "users (blocks s) I = []")
  case True
  then show ?thesis by (simp add: DemoteRegToStack_def idgrow_eraseFromParent)
next
  case False
  define lo where "lo = next_id s"
  define nm where "nm = (case find_inst (blocks s) I of Some Inst \<Rightarrow> iname Inst | None \<Rightarrow> [])"
  define F1 where "F1 = insertBefore AP (Instr lo (nm @ ''.reg2mem'') Alloca) (blocks s)"
  define F2 where "F2 = reload_blocks I nm lo (Suc lo) F1"
  define n2 where "n2 = Suc lo + n_reloads I (all_insts F1)"
  define tab where "tab = zip (phi_reqs I F2) [n2 ..< n2 + length (phi_reqs I F2)]"
  define F3 where "F3 = map (map_insts (map (reload_phi I tab))) F2"
  define F4 where "F4 = fold (\<lambda>((u, b), ld). insertBeforeTerminator b (Instr ld (nm @ ''.reload'') (Load (VInst lo)))) tab F3"
  define n3 where "n3 = n2 + length tab"
  define F5 where "F5 = insertStore I (Instr n3 [] (Store (VInst I) (VInst lo))) F4"
  have res: "DemoteRegToStack I AP s = \<lparr>blocks = F5, next_id = Suc n3\<rparr>"
    using False unfolding DemoteRegToStack_def Let_def F5_def n3_def F4_def F3_def tab_def n2_def F2_def F1_def nm_def lo_def
    by simp
  have lt: "length tab = length (phi_reqs I F2)" by (simp add: tab_def)
  have g1: "idgrow lo (Suc lo) (blocks s) F1"
    unfolding F1_def using idgrow_insertBefore[of "Instr lo (nm @ ''.reg2mem'') Alloca"] by simp
  have g2: "idgrow (Suc lo) n2 F1 F2"
    unfolding F2_def n2_def by (rule idgrow_reload_blocks)
  have g3: "idgrow n2 n2 F2 F3"
    unfolding F3_def by (simp add: idgrow_def)
  have g4: "idgrow n2 n3 F3 F4"
    unfolding F4_def n3_def tab_def using idgrow_phi_loads[of n2 "phi_reqs I F2"] by simp
  have g5: "idgrow n3 (Suc n3) F4 F5"
    unfolding F5_def using idgrow_insertStore[of "Instr n3 [] (Store (VInst I) (VInst lo))"] by simp
  have le: "lo \<le> Suc lo" "Suc lo \<le> n2" "n2 \<le> n3" "n3 \<le> Suc n3"
    by (auto simp: n2_def n3_def)
  have "idgrow lo (Suc n3) (blocks s) F5"
    using idgrow_trans[OF idgrow_trans[OF idgrow_trans[OF idgrow_trans[OF g1 g2] g3] g4] g5] le
    by auto
  then show ?thesis using res lo_def by simp
qed

section \<open>Blocks by address\<close>

lemma addrs_Cons [simp]: "addrs (B # Bs) = baddr B # addrs Bs" and addrs_Nil [simp]: "addrs [] = []"
  and addrs_append [simp]: "addrs (F @ G) = addrs F @ addrs G"
  by (simp_all add: addrs_def)

lemma block_insts_Nil [simp]: "block_insts [] a = []"
  by (simp add: block_insts_def)

lemma block_insts_Cons [simp]:
  "block_insts (B # Bs) a = (if baddr B = a then insts B else block_insts Bs a)"
  by (simp add: block_insts_def)

lemma block_insts_notin: "a \<notin> set (addrs F) \<Longrightarrow> block_insts F a = []"
  by (induction F) auto

lemma all_insts_blocks: "distinct (addrs F) \<Longrightarrow> all_insts F = concat (map (block_insts F) (addrs F))"
proof (induction F)
  case Nil
  then show ?case by simp
next
  case (Cons B F)
  have m: "map (block_insts (B # F)) (addrs F) = map (block_insts F) (addrs F)"
    by (rule map_cong) (use Cons.prems in auto)
  have "all_insts (B # F) = insts B @ concat (map (block_insts F) (addrs F))"
    using Cons by simp
  also have "\<dots> = block_insts (B # F) (baddr B) @ concat (map (block_insts (B # F)) (addrs F))"
    unfolding m by simp
  also have "\<dots> = concat (map (block_insts (B # F)) (addrs (B # F)))"
    by (simp only: addrs_Cons list.map concat.simps)
  finally show ?case .
qed

lemma getParent_Nil [simp]: "getParent [] c = None"
  by (simp add: getParent_def)

lemma getParent_Cons [simp]:
  "getParent (B # Bs) c = (if has_inst c B then Some (baddr B) else getParent Bs c)"
  by (simp add: getParent_def)

lemma getParent_Some_in: "getParent F c = Some P \<Longrightarrow> P \<in> set (addrs F) \<and> c \<in> set (ids F)"
  by (induction F) (auto simp: has_inst_def split: if_splits)

lemma getParent_None_iff: "getParent F c = None \<longleftrightarrow> c \<notin> set (ids F)"
  by (induction F) (auto simp: has_inst_def)

lemma getParent_block:
  "distinct (addrs F) \<Longrightarrow> getParent F c = Some P \<Longrightarrow> c \<in> iid ` set (block_insts F P)"
proof (induction F)
  case Nil
  then show ?case by simp
next
  case (Cons B F)
  then show ?case using getParent_Some_in[of F c P] by (auto simp: has_inst_def split: if_splits)
qed

lemma block_getParent:
  "distinct (ids F) \<Longrightarrow> c \<in> iid ` set (block_insts F P) \<Longrightarrow> getParent F c = Some P"
proof (induction F)
  case Nil
  then show ?case by simp
next
  case (Cons B F)
  show ?case
  proof (cases "baddr B = P")
    case True
    then show ?thesis using Cons.prems by (auto simp: has_inst_def)
  next
    case False
    then have in': "c \<in> iid ` set (block_insts F P)" using Cons.prems by simp
    then have "c \<in> set (ids F)"
      by (induction F) (auto split: if_splits)
    then have "\<not> has_inst c B" using Cons.prems(1) by (auto simp: has_inst_def)
    then show ?thesis using Cons in' by simp
  qed
qed

lemma getParent_iff:
  "distinct (addrs F) \<Longrightarrow> distinct (ids F) \<Longrightarrow>
   getParent F c = Some P \<longleftrightarrow> c \<in> iid ` set (block_insts F P)"
  using getParent_block block_getParent by blast

lemma addrs_at_block [simp]: "addrs (at_block a f F) = addrs F"
  by (induction F) auto

lemma addrs_at_inst [simp]: "addrs (at_inst i f F) = addrs F"
  by (induction F) auto

lemma block_insts_at_block:
  "distinct (addrs F) \<Longrightarrow>
   block_insts (at_block a f F) b = (if b = a \<and> a \<in> set (addrs F) then f (block_insts F a) else block_insts F b)"
  by (induction F) auto

lemma at_block_notin: "a \<notin> set (addrs F) \<Longrightarrow> at_block a f F = F"
  by (induction F) auto

lemma at_inst_getParent:
  "distinct (addrs F) \<Longrightarrow> at_inst i f F = (case getParent F i of Some P \<Rightarrow> at_block P f F | None \<Rightarrow> F)"
proof (induction F)
  case Nil
  then show ?case by simp
next
  case (Cons B F)
  show ?case
  proof (cases "has_inst i B")
    case True
    then show ?thesis by simp
  next
    case False
    show ?thesis
    proof (cases "getParent F i")
      case None
      then show ?thesis using False Cons by simp
    next
      case (Some P)
      then have "P \<in> set (addrs F)" using getParent_Some_in by blast
      then have "baddr B \<noteq> P" using Cons.prems by auto
      then show ?thesis using False Cons Some by simp
    qed
  qed
qed

lemma addrs_map_insts [simp]: "addrs (map (map_insts f) F) = addrs F"
  by (induction F) auto

lemma block_insts_map: "f [] = [] \<Longrightarrow> block_insts (map (map_insts f) F) a = f (block_insts F a)"
  by (induction F) auto

lemma addrs_reload_blocks [simp]: "addrs (reload_blocks I nm slot n F) = addrs F"
  by (induction F arbitrary: n) auto

section \<open>The steps of the rewriting loop\<close>

lemma view_append [simp]: "view S (xs @ ys) = view S xs @ view S ys"
  and view_Nil [simp]: "view S [] = []"
  and view_Cons: "view S (x # xs) = (if skel x \<in> S then skel x # view S xs else view S xs)"
  by (simp_all add: view_def)

lemma view_at_block:
  "view S (f (block_insts F a)) = view S (block_insts F a) \<Longrightarrow>
   view S (all_insts (at_block a f F)) = view S (all_insts F)"
  by (induction F) auto

lemma users_Nil_iff: "users F j = [] \<longleftrightarrow> \<not> refd j F"
  by (induction F) (auto simp: users_def refd_def filter_empty_conv)

subsection \<open>splitBasicBlock\<close>

lemma upto_after [simp]: "upto_inst c es @ after_inst c es = es"
  unfolding upto_inst_def after_inst_def
  by (metis append.assoc append_take_drop_id takeWhile_dropWhile_id)

lemma addrs_split_at: "addrs (split_at P c R n F) = addr_after P R (addrs F)"
  by (induction F) auto

lemma set_addr_after: "P \<in> set as \<Longrightarrow> set (addr_after P R as) = insert R (set as)"
  by (induction as) auto

lemma addr_after_notin: "P \<notin> set as \<Longrightarrow> addr_after P R as = as"
  by (induction as) auto

lemma distinct_addr_after: "distinct as \<Longrightarrow> R \<notin> set as \<Longrightarrow> distinct (addr_after P R as)"
proof (induction as)
  case Nil
  then show ?case by simp
next
  case (Cons a as)
  show ?case
  proof (cases "a = P")
    case True
    then show ?thesis using Cons.prems by auto
  next
    case False
    have "a \<notin> set (addr_after P R as)"
    proof (cases "P \<in> set as")
      case True
      then show ?thesis using Cons.prems set_addr_after[of P as R] by auto
    next
      case False
      then show ?thesis using Cons.prems addr_after_notin[of P as R] by auto
    qed
    then show ?thesis using False Cons by auto
  qed
qed

lemma hd_addr_after: "as \<noteq> [] \<Longrightarrow> hd (addr_after P R as) = hd as"
  by (cases as) auto

lemma block_insts_split_at:
  "distinct (addrs F) \<Longrightarrow> R \<notin> set (addrs F) \<Longrightarrow> P \<in> set (addrs F) \<Longrightarrow>
   block_insts (split_at P c R n F) a =
     (if a = P then upto_inst c (block_insts F P) @ [Instr n [] (Br R)]
      else if a = R then after_inst c (block_insts F P)
      else block_insts F a)"
  by (induction F) auto

lemma view_split_at:
  "skel (Instr n [] (Br R)) \<notin> S \<Longrightarrow> view S (all_insts (split_at P c R n F)) = view S (all_insts F)"
proof (induction F)
  case Nil
  then show ?case by simp
next
  case (Cons B F)
  have "view S (upto_inst c (insts B)) @ view S (after_inst c (insts B)) = view S (insts B)"
    by (metis view_append upto_after)
  then show ?case using Cons by (auto simp: view_Cons)
qed

lemma idgrow_split_at: "idgrow n (Suc n) F (split_at P c R n F)"
proof (rule idgrow_single, induction F)
  case Nil
  then show ?case by simp
next
  case (Cons B F)
  have "mset (map iid (upto_inst c (insts B))) + mset (map iid (after_inst c (insts B))) = mset (map iid (insts B))"
    by (metis map_append mset_append upto_after)
  then have e: "mset (map iid (upto_inst c (insts B))) + {#n#} + mset (map iid (after_inst c (insts B)))
      = mset (map iid (insts B)) + {#n#}"
    by (simp add: ac_simps)
  show ?case
  proof (cases "baddr B = P")
    case True
    then show ?thesis using e by (simp add: ac_simps)
  next
    case False
    have "mset (map iid (insts B)) + mset (ids (split_at P c R n F)) \<subseteq># mset (map iid (insts B)) + (mset (ids F) + {#n#})"
      using Cons by (intro subset_mset.add_left_mono)
    then show ?thesis using False by (simp add: ac_simps)
  qed
qed

lemma bext_replaceSuccessorsPhiUsesWith: "bext N F (replaceSuccessorsPhiUsesWith old new F)"
proof -
  have e: "\<And>xs. ext N xs (phis_map (replaceIncomingBlockWith old new) xs)"
  proof -
    fix xs
    have "ext N (takeWhile isPHI xs @ dropWhile isPHI xs)
            (map (replaceIncomingBlockWith old new) (takeWhile isPHI xs) @ dropWhile isPHI xs)"
      by (intro ext_append ext_map_skel) auto
    then show "ext N xs (phis_map (replaceIncomingBlockWith old new) xs)"
      by (simp add: phis_map_def)
  qed
  have "\<And>A. bext N F (map (\<lambda>B. if baddr B \<in> A then map_insts (phis_map (replaceIncomingBlockWith old new)) B else B) F)"
    by (induction F) (auto simp: bext_Cons e)
  then show ?thesis
    by (auto simp: replaceSuccessorsPhiUsesWith_def split: option.splits)
qed

lemma ids_phis_map: "map iid (phis_map (replaceIncomingBlockWith old new) xs) = map iid xs"
proof -
  have "\<And>x. iid (replaceIncomingBlockWith old new x) = iid x"
    by (auto simp: replaceIncomingBlockWith_def split: kind.splits)
  then have "map iid (map (replaceIncomingBlockWith old new) (takeWhile isPHI xs)) = map iid (takeWhile isPHI xs)"
    by simp
  then have "map iid (phis_map (replaceIncomingBlockWith old new) xs) = map iid (takeWhile isPHI xs @ dropWhile isPHI xs)"
    unfolding phis_map_def by (simp del: takeWhile_dropWhile_id)
  then show ?thesis by simp
qed

lemma ids_replaceSuccessorsPhiUsesWith [simp]: "ids (replaceSuccessorsPhiUsesWith old new F) = ids F"
proof -
  have "\<And>A. ids (map (\<lambda>B. if baddr B \<in> A then map_insts (phis_map (replaceIncomingBlockWith old new)) B else B) F) = ids F"
    by (induction F) (auto simp: ids_phis_map)
  then show ?thesis
    by (auto simp: replaceSuccessorsPhiUsesWith_def split: option.splits)
qed

subsection \<open>Users survive the demotion of another instruction\<close>

lemma operands_map_operands: "operands (map_operands f k) = map f (operands k)"
  by (cases k) (auto, (rename_tac c l, case_tac c, auto))

lemma uses_replaceUsesOfWith: "uses j U \<Longrightarrow> j \<noteq> I \<Longrightarrow> uses j (replaceUsesOfWith (VInst I) new U)"
  by (auto simp: uses_def replaceUsesOfWith_def operands_map_operands subst_def image_iff intro!: bexI[of _ "VInst j"])

lemma uses_reload_phi: "uses j U \<Longrightarrow> j \<noteq> I \<Longrightarrow> uses j (reload_phi I tab U)"
proof (cases "ikind U")
  case (PHI inc)
  assume a: "uses j U" "j \<noteq> I"
  define g where "g = (\<lambda>(v, b). if v = VInst I
              then (case map_of tab (iid U, b) of Some ld \<Rightarrow> (VInst ld, b) | None \<Rightarrow> (v, b))
              else (v, b))"
  obtain b where b: "(VInst j, b) \<in> set inc" using PHI a(1) by (auto simp: uses_def)
  have "g (VInst j, b) = (VInst j, b)" using a(2) by (simp add: g_def)
  then have "(VInst j, b) \<in> g ` set inc" using b by (metis image_eqI)
  then have "VInst j \<in> fst ` (g ` set inc)" by (metis fst_conv image_eqI)
  then have "VInst j \<in> set (operands (PHI (map g inc)))" by (simp add: image_image)
  moreover have "ikind (reload_phi I tab U) = PHI (map g inc)"
    using PHI by (simp add: reload_phi_def g_def)
  ultimately show ?thesis by (simp add: uses_def)
qed (auto simp: reload_phi_def)

lemma refd_Cons: "refd j (B # F) \<longleftrightarrow> (\<exists>U \<in> set (insts B). uses j U) \<or> refd j F"
  by (auto simp: refd_def)

lemma refd_at_inst: "(\<And>xs. set xs \<subseteq> set (f xs)) \<Longrightarrow> refd j F \<Longrightarrow> refd j (at_inst i f F)"
  by (induction F) (auto simp: refd_Cons)

lemma refd_at_block: "(\<And>xs. set xs \<subseteq> set (f xs)) \<Longrightarrow> refd j F \<Longrightarrow> refd j (at_block a f F)"
  by (induction F) (auto simp: refd_Cons)

lemma set_ins_before: "set xs \<subseteq> set (ins_before x new xs)"
  by (induction xs) auto

lemma set_ins_store: "set xs \<subseteq> set (ins_store i st xs)"
proof (induction xs)
  case Nil
  then show ?case by simp
next
  case (Cons x xs)
  have "set xs \<subseteq> set (takeWhile isPHI xs @ st # dropWhile isPHI xs)"
  proof -
    have "set xs = set (takeWhile isPHI xs @ dropWhile isPHI xs)" by simp
    then show ?thesis by (auto simp del: takeWhile_dropWhile_id)
  qed
  then show ?case using Cons by auto
qed

lemma set_before_term: "set es \<subseteq> set (case getTerminator es of Some T \<Rightarrow> butlast es @ [new, T] | None \<Rightarrow> es)"
proof (cases "getTerminator es")
  case None
  then show ?thesis by simp
next
  case (Some T)
  then have "es \<noteq> []" "T = last es" by (auto simp: getTerminator_def split: if_splits)
  then have "es = butlast es @ [T]" by simp
  then have "set es = set (butlast es) \<union> {T}" by (metis set_append list.set(1,2))
  then show ?thesis using Some by auto
qed

lemma reload_list_uses:
  "j \<noteq> I \<Longrightarrow> \<exists>U \<in> set xs. uses j U \<Longrightarrow> \<exists>U \<in> set (reload_list I nm slot n xs). uses j U"
proof (induction xs arbitrary: n)
  case Nil
  then show ?case by simp
next
  case (Cons x xs)
  show ?case
  proof (cases "uses j x")
    case True
    then show ?thesis using Cons.prems(1) by (auto simp: uses_replaceUsesOfWith)
  next
    case False
    then have "\<exists>U \<in> set xs. uses j U" using Cons.prems by auto
    then have "\<And>m. \<exists>U \<in> set (reload_list I nm slot m xs). uses j U" using Cons by blast
    then show ?thesis by (auto simp del: reload_list.simps(2) simp add: reload_list.simps(2)[of I nm slot n x xs])
  qed
qed

lemma refd_reload_blocks: "j \<noteq> I \<Longrightarrow> refd j F \<Longrightarrow> refd j (reload_blocks I nm slot n F)"
proof (induction F arbitrary: n)
  case Nil
  then show ?case by simp
next
  case (Cons B F)
  then show ?case using reload_list_uses[of j I "insts B" nm slot n] by (auto simp: refd_Cons)
qed

lemma refd_reload_phi: "j \<noteq> I \<Longrightarrow> refd j F \<Longrightarrow> refd j (map (map_insts (map (reload_phi I tab))) F)"
proof -
  assume a: "j \<noteq> I" "refd j F"
  then obtain U where U: "U \<in> set (all_insts F)" "uses j U" by (auto simp: refd_def)
  have "all_insts (map (map_insts (map (reload_phi I tab))) F) = map (reload_phi I tab) (all_insts F)"
    by (induction F) auto
  then have "reload_phi I tab U \<in> set (all_insts (map (map_insts (map (reload_phi I tab))) F))"
    using U(1) by simp
  then show ?thesis using uses_reload_phi[OF U(2) a(1)] unfolding refd_def by blast
qed

lemma refd_phi_loads:
  "refd j F \<Longrightarrow> refd j (fold (\<lambda>((u, b), ld). insertBeforeTerminator b (Instr ld nm (Load p))) tab F)"
proof (induction tab arbitrary: F)
  case Nil
  then show ?case by simp
next
  case (Cons e tab)
  obtain u b ld where e: "e = ((u, b), ld)" by (cases e) auto
  have "refd j (insertBeforeTerminator b (Instr ld nm (Load p)) F)"
    unfolding insertBeforeTerminator_def using Cons.prems by (intro refd_at_block set_before_term)
  then show ?case using Cons.IH e by simp
qed

lemma DemoteRegToStack_refd:
  assumes "users (blocks s) I \<noteq> []" "j \<noteq> I" "refd j (blocks s)"
  shows "refd j (blocks (DemoteRegToStack I AP s))"
proof -
  define lo where "lo = next_id s"
  define nm where "nm = (case find_inst (blocks s) I of Some Inst \<Rightarrow> iname Inst | None \<Rightarrow> [])"
  define F1 where "F1 = insertBefore AP (Instr lo (nm @ ''.reg2mem'') Alloca) (blocks s)"
  define F2 where "F2 = reload_blocks I nm lo (Suc lo) F1"
  define n2 where "n2 = Suc lo + n_reloads I (all_insts F1)"
  define tab where "tab = zip (phi_reqs I F2) [n2 ..< n2 + length (phi_reqs I F2)]"
  define F3 where "F3 = map (map_insts (map (reload_phi I tab))) F2"
  define F4 where "F4 = fold (\<lambda>((u, b), ld). insertBeforeTerminator b (Instr ld (nm @ ''.reload'') (Load (VInst lo)))) tab F3"
  define F5 where "F5 = insertStore I (Instr (n2 + length tab) [] (Store (VInst I) (VInst lo))) F4"
  have res: "blocks (DemoteRegToStack I AP s) = F5"
    using assms(1) unfolding DemoteRegToStack_def Let_def F5_def F4_def F3_def tab_def n2_def F2_def F1_def nm_def lo_def
    by simp
  have "refd j F1" unfolding F1_def insertBefore_def using assms(3) by (intro refd_at_inst set_ins_before)
  then have "refd j F2" unfolding F2_def using assms(2) by (intro refd_reload_blocks)
  then have "refd j F3" unfolding F3_def using assms(2) by (intro refd_reload_phi)
  then have "refd j F4" unfolding F4_def by (rule refd_phi_loads)
  then have "refd j F5" unfolding F5_def insertStore_def by (intro refd_at_inst set_ins_store)
  then show ?thesis using res by simp
qed

subsection \<open>A run of demotions\<close>

lemma DemoteRegToStack_ok:
  assumes "ir_ok s"
  shows "ir_ok (DemoteRegToStack I AP s)"
proof -
  have a: "addrs (blocks (DemoteRegToStack I AP s)) = addrs (blocks s)"
  proof (cases "users (blocks s) I = []")
    case True
    then show ?thesis by (simp add: DemoteRegToStack_def eraseFromParent_def)
  next
    case False
    then show ?thesis using DemoteRegToStack_bext bext_addrs by blast
  qed
  have "idinv (next_id (DemoteRegToStack I AP s)) (blocks (DemoteRegToStack I AP s))"
    using idgrow_idinv[OF DemoteRegToStack_idgrow _ next_id_DemoteRegToStack] assms
    by (simp add: ir_ok_def)
  then show ?thesis using a assms by (simp add: ir_ok_def)
qed

lemma demoteAll_props:
  "distinct ds \<Longrightarrow> (\<forall>d \<in> set ds. refd d (blocks s)) \<Longrightarrow>
   bext (newk (next_id s)) (blocks s) (blocks (demoteAll AP ds s))
   \<and> next_id s \<le> next_id (demoteAll AP ds s)
   \<and> idgrow (next_id s) (next_id (demoteAll AP ds s)) (blocks s) (blocks (demoteAll AP ds s))
   \<and> (\<forall>j. j \<notin> set ds \<longrightarrow> refd j (blocks s) \<longrightarrow> refd j (blocks (demoteAll AP ds s)))"
proof (induction ds arbitrary: s)
  case Nil
  then show ?case by (simp add: demoteAll_def idgrow_refl)
next
  case (Cons d ds)
  define s1 where "s1 = DemoteRegToStack d AP s"
  have u: "users (blocks s) d \<noteq> []" using Cons.prems(2) by (simp add: users_Nil_iff)
  have b1: "bext (newk (next_id s)) (blocks s) (blocks s1)"
    unfolding s1_def using u by (rule DemoteRegToStack_bext)
  have n1: "next_id s \<le> next_id s1" unfolding s1_def by (rule next_id_DemoteRegToStack)
  have g1: "idgrow (next_id s) (next_id s1) (blocks s) (blocks s1)"
    unfolding s1_def by (rule DemoteRegToStack_idgrow)
  have r1: "\<And>j. j \<noteq> d \<Longrightarrow> refd j (blocks s) \<Longrightarrow> refd j (blocks s1)"
    unfolding s1_def using u by (intro DemoteRegToStack_refd)
  have "\<forall>e \<in> set ds. refd e (blocks s1)"
  proof
    fix e assume e: "e \<in> set ds"
    then have "e \<noteq> d" using Cons.prems(1) by auto
    moreover have "refd e (blocks s)" using e Cons.prems(2) by simp
    ultimately show "refd e (blocks s1)" by (rule r1)
  qed
  then have IH: "bext (newk (next_id s1)) (blocks s1) (blocks (demoteAll AP ds s1))
     \<and> next_id s1 \<le> next_id (demoteAll AP ds s1)
     \<and> idgrow (next_id s1) (next_id (demoteAll AP ds s1)) (blocks s1) (blocks (demoteAll AP ds s1))
     \<and> (\<forall>j. j \<notin> set ds \<longrightarrow> refd j (blocks s1) \<longrightarrow> refd j (blocks (demoteAll AP ds s1)))"
    using Cons.IH[of s1] Cons.prems(1) by simp
  have e: "demoteAll AP (d # ds) s = demoteAll AP ds s1" by (simp add: demoteAll_def s1_def)
  have "bext (newk (next_id s)) (blocks s1) (blocks (demoteAll AP ds s1))"
    using IH n1 by (auto intro: bext_mono newk_mono)
  then have B: "bext (newk (next_id s)) (blocks s) (blocks (demoteAll AP ds s1))"
    using b1 bext_newk_trans by blast
  have G: "idgrow (next_id s) (next_id (demoteAll AP ds s1)) (blocks s) (blocks (demoteAll AP ds s1))"
    using idgrow_trans[OF g1 _ n1] IH by blast
  show ?case unfolding e using B G IH n1 r1 by auto
qed

subsection \<open>Moving the call and branching to the shared block\<close>

lemma find_inst_Some: "find_inst F c = Some C \<Longrightarrow> C \<in> set (all_insts F) \<and> iid C = c"
  unfolding find_inst_def by (auto simp: find_Some_iff)

lemma find_inst_None_iff: "find_inst F c = None \<longleftrightarrow> c \<notin> set (ids F)"
  unfolding find_inst_def ids_def by (auto simp: find_None_iff)

lemma view_erase1: "(\<forall>k \<in> S. iid k \<noteq> c) \<Longrightarrow> view S (erase1 c xs) = view S xs"
  by (induction xs) (auto simp: view_Cons)

lemma view_insert_PHI:
  "skel C \<notin> S \<Longrightarrow> view S (takeWhile isPHI es @ C # dropWhile isPHI es) = view S es"
proof -
  assume a: "skel C \<notin> S"
  have "view S (takeWhile isPHI es @ C # dropWhile isPHI es) = view S (takeWhile isPHI es @ dropWhile isPHI es)"
    using a by (simp add: view_Cons del: takeWhile_dropWhile_id)
  then show ?thesis by simp
qed

lemma view_eraseFromParent:
  "(\<forall>k \<in> S. iid k \<noteq> c) \<Longrightarrow> view S (all_insts (eraseFromParent c F)) = view S (all_insts F)"
  unfolding eraseFromParent_def
  by (induction F) (auto simp: view_erase1)

lemma view_move:
  "(\<forall>k \<in> S. iid k \<noteq> c) \<Longrightarrow>
   view S (all_insts (moveBeforeFirstNonPHI c R F)) = view S (all_insts F)"
proof (cases "find_inst F c")
  case None
  then show ?thesis by (simp add: moveBeforeFirstNonPHI_def)
next
  case (Some C)
  assume a: "\<forall>k \<in> S. iid k \<noteq> c"
  have "iid C = c" using Some find_inst_Some by blast
  then have "skel C \<notin> S" using a by (metis skel_simps(1))
  then have "view S (all_insts (at_block R (\<lambda>es. takeWhile isPHI es @ C # dropWhile isPHI es) (eraseFromParent c F)))
      = view S (all_insts (eraseFromParent c F))"
    by (intro view_at_block view_insert_PHI)
  then show ?thesis using Some a by (simp add: moveBeforeFirstNonPHI_def view_eraseFromParent)
qed

lemma addrs_eraseFromParent [simp]: "addrs (eraseFromParent c F) = addrs F"
  by (simp add: eraseFromParent_def)

lemma addrs_move [simp]: "addrs (moveBeforeFirstNonPHI c R F) = addrs F"
  by (simp add: moveBeforeFirstNonPHI_def split: option.splits)

lemma mset_erase1: "c \<in> iid ` set xs \<Longrightarrow> mset (map iid (erase1 c xs)) + {#c#} = mset (map iid xs)"
  by (induction xs) auto

lemma mset_ids_eraseFromParent:
  "c \<in> set (ids F) \<Longrightarrow> mset (ids (eraseFromParent c F)) + {#c#} = mset (ids F)"
  unfolding eraseFromParent_def
proof (induction F)
  case Nil
  then show ?case by simp
next
  case (Cons B F)
  show ?case
  proof (cases "has_inst c B")
    case True
    then have "mset (map iid (erase1 c (insts B))) + {#c#} = mset (map iid (insts B))"
      by (intro mset_erase1) (simp add: has_inst_def)
    then show ?thesis using True by (metis (no_types, lifting) at_inst.simps(2) ids_Cons insts_map_insts
          mset_append union_commute union_lcomm)
  next
    case False
    then have "c \<in> set (ids F)" using Cons.prems by (auto simp: has_inst_def)
    then show ?thesis using False Cons.IH by (simp add: ac_simps)
  qed
qed

lemma idgrow_subset: "mset (ids G) \<subseteq># mset (ids F) \<Longrightarrow> idgrow n n' F G"
  unfolding idgrow_def
proof
  fix a assume "mset (ids G) \<subseteq># mset (ids F)"
  then have "count (mset (ids G)) a \<le> count (mset (ids F)) a" by (rule mset_subset_eq_count)
  then show "count (mset (ids G)) a \<le> count (mset (ids F)) a + (if n \<le> a \<and> a < n' then 1 else 0)"
    by linarith
qed

lemma idgrow_move: "idgrow n n F (moveBeforeFirstNonPHI c R F)"
proof (cases "find_inst F c")
  case None
  then show ?thesis by (simp add: moveBeforeFirstNonPHI_def idgrow_refl)
next
  case (Some C)
  then have C: "iid C = c" "c \<in> set (ids F)" using find_inst_Some by (auto simp: ids_def)
  have "mset (ids (at_block R (\<lambda>es. takeWhile isPHI es @ C # dropWhile isPHI es) (eraseFromParent c F)))
      \<subseteq># mset (ids (eraseFromParent c F)) + {#c#}"
  proof (rule ids_at_block)
    fix xs
    have "mset (map iid (takeWhile isPHI xs @ C # dropWhile isPHI xs)) = mset (map iid (takeWhile isPHI xs @ dropWhile isPHI xs)) + {#c#}"
      using C(1) by (simp del: takeWhile_dropWhile_id)
    then show "mset (map iid (takeWhile isPHI xs @ C # dropWhile isPHI xs)) \<subseteq># mset (map iid xs) + {#c#}"
      by simp
  qed
  then have "mset (ids (moveBeforeFirstNonPHI c R F)) \<subseteq># mset (ids F)"
    using Some mset_ids_eraseFromParent[OF C(2)] by (simp add: moveBeforeFirstNonPHI_def)
  then show ?thesis by (rule idgrow_subset)
qed

lemma block_insts_eraseFromParent:
  "distinct (addrs F) \<Longrightarrow> getParent F c = Some P \<Longrightarrow>
   block_insts (eraseFromParent c F) a = (if a = P then erase1 c (block_insts F P) else block_insts F a)"
  unfolding eraseFromParent_def
  using getParent_Some_in[of F c P]
  by (simp add: at_inst_getParent block_insts_at_block)

lemma block_insts_move:
  assumes "distinct (addrs F)" "getParent F c = Some P" "find_inst F c = Some C" "R \<in> set (addrs F)" "R \<noteq> P"
  shows "block_insts (moveBeforeFirstNonPHI c R F) a =
     (if a = P then erase1 c (block_insts F P)
      else if a = R then takeWhile isPHI (block_insts F R) @ C # dropWhile isPHI (block_insts F R)
      else block_insts F a)"
proof -
  have d: "distinct (addrs (eraseFromParent c F))" using assms(1) by simp
  show ?thesis
    using assms block_insts_at_block[OF d] block_insts_eraseFromParent[OF assms(1,2)]
    by (simp add: moveBeforeFirstNonPHI_def)
qed

lemma addrs_branchToCallBlock [simp]: "addrs (blocks (branchToCallBlock cb P s)) = addrs (blocks s)"
  by (simp add: branchToCallBlock_def)

lemma next_id_branchToCallBlock [simp]: "next_id (branchToCallBlock cb P s) = Suc (next_id s)"
  by (simp add: branchToCallBlock_def)

lemma block_insts_branchToCallBlock:
  "distinct (addrs (blocks s)) \<Longrightarrow> P \<in> set (addrs (blocks s)) \<Longrightarrow>
   block_insts (blocks (branchToCallBlock cb P s)) a =
     (if a = P then butlast (block_insts (blocks s) P) @ [Instr (next_id s) [] (Br cb)]
      else block_insts (blocks s) a)"
  by (simp add: branchToCallBlock_def block_insts_at_block)

lemma idgrow_branchToCallBlock:
  "idgrow (next_id s) (Suc (next_id s)) (blocks s) (blocks (branchToCallBlock cb P s))"
proof -
  have "mset (ids (at_block P (\<lambda>es. butlast es @ [Instr (next_id s) [] (Br cb)]) (blocks s)))
      \<subseteq># mset (ids (blocks s)) + {#next_id s#}"
  proof (rule ids_at_block)
    fix xs :: "instr list"
    have "mset (butlast xs) \<subseteq># mset xs"
    proof (cases "xs = []")
      case True
      then show ?thesis by simp
    next
      case False
      then have "mset xs = mset (butlast xs @ [last xs])" by simp
      then have "mset xs = mset (butlast xs) + {#last xs#}" by (simp del: append_butlast_last_id)
      then show ?thesis by simp
    qed
    then have "image_mset iid (mset (butlast xs)) \<subseteq># image_mset iid (mset xs)"
      by (rule image_mset_subseteq_mono)
    then show "mset (map iid (butlast xs @ [Instr (next_id s) [] (Br cb)])) \<subseteq># mset (map iid xs) + {#next_id s#}"
      by simp
  qed
  then show ?thesis by (intro idgrow_single) (simp add: branchToCallBlock_def)
qed

lemma view_butlast: "xs \<noteq> [] \<Longrightarrow> skel (last xs) \<notin> S \<Longrightarrow> view S (butlast xs) = view S xs"
proof -
  assume a: "xs \<noteq> []" "skel (last xs) \<notin> S"
  then have "view S xs = view S (butlast xs @ [last xs])" by simp
  also have "\<dots> = view S (butlast xs)" using a(2) by (simp add: view_Cons del: append_butlast_last_id)
  finally show ?thesis by simp
qed

lemma view_branchToCallBlock:
  assumes "\<forall>k \<in> S. iid k \<noteq> next_id s"
    and "block_insts (blocks s) P \<noteq> [] \<Longrightarrow> skel (last (block_insts (blocks s) P)) \<notin> S"
  shows "view S (all_insts (blocks (branchToCallBlock cb P s))) = view S (all_insts (blocks s))"
proof -
  have "skel (Instr (next_id s) [] (Br cb)) \<notin> S" using assms(1) by (metis skel_simps(1) instr.sel(1))
  then have "view S (butlast (block_insts (blocks s) P) @ [Instr (next_id s) [] (Br cb)]) = view S (block_insts (blocks s) P)"
    using assms(2) by (cases "block_insts (blocks s) P = []") (auto simp: view_Cons view_butlast)
  then show ?thesis unfolding branchToCallBlock_def by (simp add: view_at_block)
qed

subsection \<open>The instructions to demote\<close>

lemma distinct_block_ids: "distinct (ids F) \<Longrightarrow> distinct (map iid (block_insts F a))"
  by (induction F) auto

lemma block_ids_subset: "set (block_insts F a) \<subseteq> set (all_insts F)"
  by (induction F) auto

lemma valueEscapes_refd: "valueEscapes F i \<Longrightarrow> refd i F"
  using users_Nil_iff[of F i] by (auto simp: valueEscapes_def)

lemma toDemote_props:
  "distinct (ids F) \<Longrightarrow> distinct (toDemote E P F) \<and> (\<forall>d \<in> set (toDemote E P F). refd d F)"
  unfolding toDemote_def
  using distinct_block_ids[of F P]
  by (auto simp: distinct_map_filter valueEscapes_refd)

lemma ext_newk_trans: "ext (newk lo) xs ys \<Longrightarrow> ext (newk lo) ys zs \<Longrightarrow> ext (newk lo) xs zs"
  using ext_trans[of "newk lo" ys zs xs] newk_skel by blast

lemma upto_has: "c \<in> iid ` set xs \<Longrightarrow> c \<in> iid ` set (upto_inst c xs)"
proof -
  assume "c \<in> iid ` set xs"
  then have "dropWhile (\<lambda>I. iid I \<noteq> c) xs \<noteq> []" by (auto simp: dropWhile_eq_Nil_conv)
  then obtain d ds where d: "dropWhile (\<lambda>I. iid I \<noteq> c) xs = d # ds"
    by (cases "dropWhile (\<lambda>I. iid I \<noteq> c) xs") auto
  then have "iid d = c" using hd_dropWhile[of "\<lambda>I. iid I \<noteq> c" xs] by auto
  then show ?thesis using d by (auto simp: upto_inst_def)
qed

lemma erase1_subset: "set (erase1 c xs) \<subseteq> set xs"
  by (induction xs) auto

lemma erase1_gone: "distinct (map iid xs) \<Longrightarrow> c \<notin> iid ` set (erase1 c xs)"
  by (induction xs) (auto dest: subsetD[OF erase1_subset])

lemma last_erase1: "xs \<noteq> [] \<Longrightarrow> iid (last xs) \<noteq> c \<Longrightarrow> erase1 c xs \<noteq> [] \<and> last (erase1 c xs) = last xs"
  by (induction xs) (auto split: if_splits)

lemma ir_ok_update:
  "ir_ok s \<Longrightarrow> distinct (addrs (blocks t)) \<Longrightarrow> idgrow (next_id s) (next_id t) (blocks s) (blocks t)
   \<Longrightarrow> next_id s \<le> next_id t \<Longrightarrow> ir_ok t"
  using idgrow_idinv by (auto simp: ir_ok_def)

lemma block_ids_in: "I \<in> set (block_insts F a) \<Longrightarrow> iid I \<in> set (ids F)"
  using block_ids_subset[of F a] by (auto simp: ids_def)

section \<open>What every step keeps\<close>

subsection \<open>Uses grow only by stores and by new instructions\<close>

lemma isCall_skel [simp]: "isCall (skel I) = isCall I"
  by (cases I; cases "ikind I") (auto simp: isCall_def skel_def)

lemma isStorek_shape [simp]: "isStorek (shape k) = isStorek k"
  by (cases k) auto

lemma skel_isStore: "skel U = skel V \<Longrightarrow> isStorek (ikind U) = isStorek (ikind V)"
  by (metis instr.sel(3) isStorek_shape skel_def)

lemma skel_isCall: "skel U = skel V \<Longrightarrow> isCall U = isCall V"
  by (metis isCall_skel)

lemma umono_refl: "umono lo F F"
  by (auto simp: umono_def)

lemma umono_trans:
  assumes "umono lo F G" "umono lo G H" "set (ids G) \<subseteq> set (ids F) \<union> {lo ..}"
  shows "umono lo F H"
  unfolding umono_def
proof (intro allI impI ballI)
  fix j U assume j: "j < lo" and U: "U \<in> set (all_insts H)" "uses j U"
  from assms(2) j U consider
    (old) V where "V \<in> set (all_insts G)" "skel V = skel U" "uses j V"
    | (st) "isStorek (ikind U)" "j \<in> set (ids G)"
    unfolding umono_def by blast
  then show "(\<exists>V \<in> set (all_insts F). skel V = skel U \<and> uses j V) \<or> (isStorek (ikind U) \<and> j \<in> set (ids F))"
  proof cases
    case old
    from assms(1) j old(1,3) consider
      (old2) W where "W \<in> set (all_insts F)" "skel W = skel V" "uses j W"
      | (st2) "isStorek (ikind V)" "j \<in> set (ids F)"
      unfolding umono_def by blast
    then show ?thesis
    proof cases
      case old2
      then show ?thesis using old(2) by auto
    next
      case st2
      then show ?thesis using old(2) skel_isStore by blast
    qed
  next
    case st
    then have "j \<in> set (ids F)" using assms(3) j by auto
    then show ?thesis using st by simp
  qed
qed

lemma umono_mono: "umono lo F G \<Longrightarrow> lo' \<le> lo \<Longrightarrow> umono lo' F G"
  by (auto simp: umono_def)

lemma umono_subset: "set (all_insts G) \<subseteq> set (all_insts F) \<Longrightarrow> umono lo F G"
  by (auto simp: umono_def)

lemma umono_insert:
  assumes "set (all_insts G) \<subseteq> insert new (set (all_insts F))"
    and "\<And>j. j < lo \<Longrightarrow> uses j new \<Longrightarrow> isStorek (ikind new) \<and> j \<in> set (ids F)"
  shows "umono lo F G"
  unfolding umono_def using assms by blast

lemma all_insts_at_block_sub:
  "(\<And>xs. set (f xs) \<subseteq> insert new (set xs)) \<Longrightarrow> set (all_insts (at_block a f F)) \<subseteq> insert new (set (all_insts F))"
  by (induction F) auto

lemma all_insts_at_inst_sub:
  "(\<And>xs. set (f xs) \<subseteq> insert new (set xs)) \<Longrightarrow> set (all_insts (at_inst i f F)) \<subseteq> insert new (set (all_insts F))"
  by (induction F) auto

lemma set_ins_before_sub: "set (ins_before x new xs) \<subseteq> insert new (set xs)"
  by (induction xs) auto

lemma set_ins_store_sub: "set (ins_store i st xs) \<subseteq> insert st (set xs)"
proof (induction xs)
  case Nil
  then show ?case by simp
next
  case (Cons x xs)
  have "set (takeWhile isPHI xs @ st # dropWhile isPHI xs) \<subseteq> insert st (set xs)"
    by (auto dest: set_takeWhileD set_dropWhileD)
  then show ?case using Cons by auto
qed

lemma set_before_term_sub:
  "set (case getTerminator es of Some T \<Rightarrow> butlast es @ [new, T] | None \<Rightarrow> es) \<subseteq> insert new (set es)"
  by (auto simp: getTerminator_def split: option.splits if_splits dest: in_set_butlastD)

lemma all_insts_map: "all_insts (map (map_insts (map g)) F) = map g (all_insts F)"
  by (induction F) auto

lemma umono_map:
  assumes "\<And>U. skel (g U) = skel U" "\<And>U j. j < lo \<Longrightarrow> uses j (g U) \<Longrightarrow> uses j U"
  shows "umono lo F (map (map_insts (map g)) F)"
  unfolding umono_def all_insts_map using assms by fastforce

lemma uses_replaceUsesOfWith_rev:
  "uses j (replaceUsesOfWith (VInst I) (VInst n) U) \<Longrightarrow> j \<noteq> n \<Longrightarrow> uses j U"
  by (auto simp: uses_def replaceUsesOfWith_def operands_map_operands subst_def split: if_splits)

lemma uses_reload_phi_rev:
  "uses j (reload_phi I tab U) \<Longrightarrow> (\<forall>e \<in> set tab. snd e \<noteq> j) \<Longrightarrow> uses j U"
proof (cases "ikind U")
  case (PHI inc)
  assume a: "uses j (reload_phi I tab U)" "\<forall>e \<in> set tab. snd e \<noteq> j"
  define g where "g = (\<lambda>(v, b). if v = VInst I
              then (case map_of tab (iid U, b) of Some ld \<Rightarrow> (VInst ld, b) | None \<Rightarrow> (v, b))
              else (v, b))"
  have k: "ikind (reload_phi I tab U) = PHI (map g inc)"
    using PHI by (simp add: reload_phi_def g_def)
  then obtain v b where vb: "(v, b) \<in> set inc" "fst (g (v, b)) = VInst j"
    using a(1) by (auto simp: uses_def)
  have "v = VInst j"
  proof (cases "v = VInst I")
    case True
    show ?thesis
    proof (cases "map_of tab (iid U, b)")
      case None
      then show ?thesis using vb(2) True by (simp add: g_def)
    next
      case (Some ld)
      then have "((iid U, b), ld) \<in> set tab" by (rule map_of_SomeD)
      then have "ld \<noteq> j" using a(2) by auto
      then show ?thesis using vb(2) True Some by (simp add: g_def)
    qed
  next
    case False
    then show ?thesis using vb(2) by (simp add: g_def)
  qed
  then show "uses j U" using vb(1) PHI by (force simp: uses_def)
qed (auto simp: reload_phi_def)

lemma reload_list_sub:
  assumes "lo \<le> slot"
  shows "lo \<le> n \<Longrightarrow> U \<in> set (reload_list I nm slot n xs) \<Longrightarrow> j < lo \<Longrightarrow> uses j U
     \<Longrightarrow> \<exists>V \<in> set xs. skel V = skel U \<and> uses j V"
proof (induction xs arbitrary: n)
  case Nil
  then show ?case by simp
next
  case (Cons x xs)
  show ?case
  proof (cases "uses I x \<and> \<not> isPHI x")
    case True
    then have e: "reload_list I nm slot n (x # xs) =
        Instr n (nm @ ''.reload'') (Load (VInst slot)) # replaceUsesOfWith (VInst I) (VInst n) x # reload_list I nm slot (Suc n) xs"
      by simp
    from Cons.prems(2) e consider
      (a) "U = Instr n (nm @ ''.reload'') (Load (VInst slot))"
      | (b) "U = replaceUsesOfWith (VInst I) (VInst n) x"
      | (c) "U \<in> set (reload_list I nm slot (Suc n) xs)"
      by auto
    then show ?thesis
    proof cases
      case a
      then have "\<not> uses j U" using assms Cons.prems(3) by (auto simp: uses_def)
      then show ?thesis using Cons.prems(4) by simp
    next
      case b
      have "j \<noteq> n" using Cons.prems(1,3) by simp
      then have "uses j x" using Cons.prems(4) b uses_replaceUsesOfWith_rev by blast
      moreover have "skel x = skel U" using b by simp
      ultimately show ?thesis by auto
    next
      case c
      have "lo \<le> Suc n" using Cons.prems(1) by simp
      from Cons.IH[OF this c Cons.prems(3,4)] show ?thesis by auto
    qed
  next
    case False
    then have e: "reload_list I nm slot n (x # xs) = x # reload_list I nm slot n xs" by auto
    from Cons.prems(2) e consider (a) "U = x" | (c) "U \<in> set (reload_list I nm slot n xs)" by auto
    then show ?thesis
    proof cases
      case a
      then show ?thesis using Cons.prems(4) by auto
    next
      case c
      from Cons.IH[OF Cons.prems(1) c Cons.prems(3,4)] show ?thesis by auto
    qed
  qed
qed

lemma reload_blocks_sub:
  assumes "lo \<le> slot"
  shows "lo \<le> n \<Longrightarrow> U \<in> set (all_insts (reload_blocks I nm slot n F)) \<Longrightarrow> j < lo \<Longrightarrow> uses j U
     \<Longrightarrow> \<exists>V \<in> set (all_insts F). skel V = skel U \<and> uses j V"
proof (induction F arbitrary: n)
  case Nil
  then show ?case by simp
next
  case (Cons B F)
  from Cons.prems(2) consider
    (a) "U \<in> set (reload_list I nm slot n (insts B))"
    | (b) "U \<in> set (all_insts (reload_blocks I nm slot (n + n_reloads I (insts B)) F))"
    by auto
  then show ?case
  proof cases
    case a
    from reload_list_sub[OF assms Cons.prems(1) a Cons.prems(3,4)] show ?thesis by auto
  next
    case b
    have "lo \<le> n + n_reloads I (insts B)" using Cons.prems(1) by simp
    from Cons.IH[OF this b Cons.prems(3,4)] show ?thesis by auto
  qed
qed

lemma umono_reload_blocks:
  assumes "lo \<le> n" "lo \<le> slot"
  shows "umono lo F (reload_blocks I nm slot n F)"
  unfolding umono_def using reload_blocks_sub[OF assms(2,1)] by blast

lemma umono_inserts:
  assumes "set (all_insts G) \<subseteq> News \<union> set (all_insts F)"
    and "\<And>new j. new \<in> News \<Longrightarrow> j < lo \<Longrightarrow> uses j new \<Longrightarrow> isStorek (ikind new) \<and> j \<in> set (ids F)"
  shows "umono lo F G"
  unfolding umono_def using assms by blast

lemma phi_loads_sub:
  "set (all_insts (fold (\<lambda>((u, b), ld). insertBeforeTerminator b (Instr ld nm (Load p))) tab F))
     \<subseteq> {Instr ld nm (Load p) | ld. True} \<union> set (all_insts F)"
proof (induction tab arbitrary: F)
  case Nil
  then show ?case by simp
next
  case (Cons e tab)
  obtain u b ld where e: "e = ((u, b), ld)" by (cases e) auto
  have 1: "set (all_insts (insertBeforeTerminator b (Instr ld nm (Load p)) F)) \<subseteq> insert (Instr ld nm (Load p)) (set (all_insts F))"
    unfolding insertBeforeTerminator_def by (intro all_insts_at_block_sub set_before_term_sub)
  have 2: "set (all_insts (fold (\<lambda>((u, b), ld). insertBeforeTerminator b (Instr ld nm (Load p))) tab
              (insertBeforeTerminator b (Instr ld nm (Load p)) F)))
     \<subseteq> {Instr ld nm (Load p) | ld. True} \<union> set (all_insts (insertBeforeTerminator b (Instr ld nm (Load p)) F))"
    by (rule Cons.IH)
  show ?case using 1 2 e by auto
qed

lemma bext_ids_old: "bext N F G \<Longrightarrow> set (ids F) \<subseteq> set (ids G)"
proof -
  assume "bext N F G"
  then have "skel ` set (all_insts F) \<subseteq> skel ` set (all_insts G)"
    using bext_all_insts ext_set_old by blast
  then have "iid ` skel ` set (all_insts F) \<subseteq> iid ` skel ` set (all_insts G)" by blast
  then show ?thesis by (simp add: ids_def image_image)
qed

lemma bext_cset: "bext (newk lo) F G \<Longrightarrow> cset G = cset F"
proof -
  assume b: "bext (newk lo) F G"
  then have e: "ext (newk lo) (all_insts F) (all_insts G)" by (rule bext_all_insts)
  have "\<And>y. y \<in> set (all_insts G) \<Longrightarrow> isCall y \<Longrightarrow> skel y \<in> skel ` set (all_insts F)"
  proof -
    fix y assume y: "y \<in> set (all_insts G)" "isCall y"
    have "\<not> newk lo y" using y(2) by (cases "ikind y") (auto simp: newk_def isCall_def)
    then show "skel y \<in> skel ` set (all_insts F)" using ext_set_new[OF e y(1)] by simp
  qed
  moreover have "skel ` set (all_insts F) \<subseteq> skel ` set (all_insts G)" using e by (rule ext_set_old)
  ultimately show ?thesis unfolding cset_def ccalls_def by auto
qed

lemma benign_refl: "benign lo A F F"
  by (auto simp: benign_def umono_refl)

lemma benignD:
  assumes "benign lo A F G"
  shows "\<And>S. (\<forall>k \<in> S. iid k < lo \<and> iid k \<notin> A) \<Longrightarrow> view S (all_insts G) = view S (all_insts F)"
    and "umono lo F G"
    and "set (ids G) \<subseteq> set (ids F) \<union> {lo ..}"
    and "cset G = cset F"
  using assms unfolding benign_def by blast+

lemma benignI:
  assumes "\<And>S. (\<forall>k \<in> S. iid k < lo \<and> iid k \<notin> A) \<Longrightarrow> view S (all_insts G) = view S (all_insts F)"
    and "umono lo F G"
    and "set (ids G) \<subseteq> set (ids F) \<union> {lo ..}"
    and "cset G = cset F"
  shows "benign lo A F G"
  using assms unfolding benign_def by blast

lemma benign_trans:
  assumes "benign lo A F G" "benign lo A G H"
  shows "benign lo A F H"
proof (rule benignI)
  fix S assume S: "\<forall>k \<in> S. iid k < lo \<and> iid k \<notin> A"
  show "view S (all_insts H) = view S (all_insts F)"
    using benignD(1)[OF assms(1) S] benignD(1)[OF assms(2) S] by simp
next
  show "umono lo F H"
    using umono_trans[OF benignD(2)[OF assms(1)] benignD(2)[OF assms(2)] benignD(3)[OF assms(1)]] .
next
  show "set (ids H) \<subseteq> set (ids F) \<union> {lo ..}"
    using benignD(3)[OF assms(1)] benignD(3)[OF assms(2)] by blast
next
  show "cset H = cset F"
    using benignD(4)[OF assms(1)] benignD(4)[OF assms(2)] by simp
qed

lemma benign_mono:
  assumes "benign lo A F G" "lo' \<le> lo" "A \<subseteq> A'"
  shows "benign lo' A' F G"
proof (rule benignI)
  fix S assume S: "\<forall>k \<in> S. iid k < lo' \<and> iid k \<notin> A'"
  have "\<forall>k \<in> S. iid k < lo \<and> iid k \<notin> A" using S assms(2,3) by auto
  then show "view S (all_insts G) = view S (all_insts F)" by (rule benignD(1)[OF assms(1)])
next
  show "umono lo' F G" using benignD(2)[OF assms(1)] assms(2) by (rule umono_mono)
next
  show "set (ids G) \<subseteq> set (ids F) \<union> {lo' ..}" using benignD(3)[OF assms(1)] assms(2) by auto
next
  show "cset G = cset F" by (rule benignD(4)[OF assms(1)])
qed

lemma benign_bext:
  assumes "bext (newk lo) F G" "umono lo F G" "set (ids G) \<subseteq> set (ids F) \<union> {lo ..}"
  shows "benign lo A F G"
proof (rule benignI)
  fix S assume S: "\<forall>k\<in>S. iid k < lo \<and> iid k \<notin> A"
  have "\<And>n. newk lo n \<Longrightarrow> skel n \<notin> S"
  proof
    fix n assume "newk lo n" "skel n \<in> S"
    then have "lo \<le> iid (skel n)" "iid (skel n) < lo" using S by (auto simp: newk_def)
    then show False by simp
  qed
  then show "view S (all_insts G) = view S (all_insts F)" using assms(1) bext_view by blast
next
  show "cset G = cset F" using assms(1) by (rule bext_cset)
qed (use assms in auto)

lemma DemoteRegToStack_umono:
  assumes "users (blocks s) I \<noteq> []" "I \<in> set (ids (blocks s))" "lo \<le> next_id s"
  shows "umono lo (blocks s) (blocks (DemoteRegToStack I AP s))"
proof -
  define n where "n = next_id s"
  define nm where "nm = (case find_inst (blocks s) I of Some Inst \<Rightarrow> iname Inst | None \<Rightarrow> [])"
  define F1 where "F1 = insertBefore AP (Instr n (nm @ ''.reg2mem'') Alloca) (blocks s)"
  define F2 where "F2 = reload_blocks I nm n (Suc n) F1"
  define n2 where "n2 = Suc n + n_reloads I (all_insts F1)"
  define tab where "tab = zip (phi_reqs I F2) [n2 ..< n2 + length (phi_reqs I F2)]"
  define F3 where "F3 = map (map_insts (map (reload_phi I tab))) F2"
  define F4 where "F4 = fold (\<lambda>((u, b), ld). insertBeforeTerminator b (Instr ld (nm @ ''.reload'') (Load (VInst n)))) tab F3"
  define F5 where "F5 = insertStore I (Instr (n2 + length tab) [] (Store (VInst I) (VInst n))) F4"
  have res: "blocks (DemoteRegToStack I AP s) = F5"
    using assms(1) unfolding DemoteRegToStack_def Let_def F5_def F4_def F3_def tab_def n2_def F2_def F1_def nm_def n_def
    by simp
  have lon: "lo \<le> n" using assms(3) by (simp add: n_def)
  have b1: "bext (newk n) (blocks s) F1"
    unfolding F1_def by (rule bext_insertBefore) simp
  have b2: "bext (newk n) F1 F2"
    unfolding F2_def by (rule bext_reload_blocks) simp
  have b3: "bext (newk n) F2 F3"
    unfolding F3_def by (rule bext_reload_phi)
  have tabge: "\<forall>e \<in> set tab. n \<le> snd e"
    unfolding tab_def n2_def by (auto dest!: set_zip_rightD)
  then have b4: "bext (newk n) F3 F4"
    unfolding F4_def by (rule bext_phi_loads)
  have i1: "set (ids (blocks s)) \<subseteq> set (ids F1)" using b1 by (rule bext_ids_old)
  have i2: "set (ids F1) \<subseteq> set (ids F2)" using b2 by (rule bext_ids_old)
  have i3: "set (ids F2) \<subseteq> set (ids F3)" using b3 by (rule bext_ids_old)
  have i4: "set (ids F3) \<subseteq> set (ids F4)" using b4 by (rule bext_ids_old)
  have u1: "umono lo (blocks s) F1"
  proof (rule umono_insert)
    show "set (all_insts F1) \<subseteq> insert (Instr n (nm @ ''.reg2mem'') Alloca) (set (all_insts (blocks s)))"
      unfolding F1_def insertBefore_def by (intro all_insts_at_inst_sub set_ins_before_sub)
  qed (auto simp: uses_def)
  have u2: "umono lo F1 F2"
    unfolding F2_def using lon by (intro umono_reload_blocks) auto
  have u3: "umono lo F2 F3"
    unfolding F3_def
  proof (rule umono_map)
    fix U j assume "j < lo" "uses j (reload_phi I tab U)"
    moreover have "\<forall>e \<in> set tab. snd e \<noteq> j" using tabge lon \<open>j < lo\<close> by auto
    ultimately show "uses j U" using uses_reload_phi_rev by blast
  qed simp
  have u4: "umono lo F3 F4"
  proof (rule umono_inserts)
    show "set (all_insts F4) \<subseteq> {Instr ld (nm @ ''.reload'') (Load (VInst n)) | ld. True} \<union> set (all_insts F3)"
      unfolding F4_def by (rule phi_loads_sub)
  next
    fix new j assume "new \<in> {Instr ld (nm @ ''.reload'') (Load (VInst n)) | ld. True}" "j < lo" "uses j new"
    then show "isStorek (ikind new) \<and> j \<in> set (ids F3)" using lon by (auto simp: uses_def)
  qed
  have u5: "umono lo F4 F5"
  proof (rule umono_insert)
    show "set (all_insts F5) \<subseteq> insert (Instr (n2 + length tab) [] (Store (VInst I) (VInst n))) (set (all_insts F4))"
      unfolding F5_def insertStore_def by (intro all_insts_at_inst_sub set_ins_store_sub)
  next
    fix j assume "j < lo" "uses j (Instr (n2 + length tab) [] (Store (VInst I) (VInst n)))"
    then have "j = I" using lon by (auto simp: uses_def)
    then show "isStorek (ikind (Instr (n2 + length tab) [] (Store (VInst I) (VInst n)))) \<and> j \<in> set (ids F4)"
      using assms(2) i1 i2 i3 i4 by auto
  qed
  have s1: "set (ids F1) \<subseteq> set (ids (blocks s)) \<union> {lo ..}"
    using idgrow_set[OF idgrow_insertBefore[of "Instr n (nm @ ''.reg2mem'') Alloca" "blocks s" AP]] lon
    unfolding F1_def by auto
  have s2: "set (ids F2) \<subseteq> set (ids F1) \<union> {lo ..}"
    using idgrow_set[OF idgrow_reload_blocks[of "Suc n" I F1 nm n]] lon unfolding F2_def by auto
  have s3: "set (ids F3) \<subseteq> set (ids F2) \<union> {lo ..}"
    unfolding F3_def by simp
  have s4: "set (ids F4) \<subseteq> set (ids F3) \<union> {lo ..}"
    using idgrow_set[OF idgrow_phi_loads[of n2 "phi_reqs I F2" F3 "nm @ ''.reload''" "VInst n"]] lon
    unfolding F4_def tab_def n2_def by auto
  have s12: "set (ids F2) \<subseteq> set (ids (blocks s)) \<union> {lo ..}" using s1 s2 by auto
  have s13: "set (ids F3) \<subseteq> set (ids (blocks s)) \<union> {lo ..}" using s12 s3 by auto
  have s14: "set (ids F4) \<subseteq> set (ids (blocks s)) \<union> {lo ..}" using s13 s4 by auto
  have "umono lo (blocks s) F2" using umono_trans[OF u1 u2 s1] .
  then have "umono lo (blocks s) F3" using umono_trans[OF _ u3 s12] by blast
  then have "umono lo (blocks s) F4" using umono_trans[OF _ u4 s13] by blast
  then have "umono lo (blocks s) F5" using umono_trans[OF _ u5 s14] by blast
  then show ?thesis using res by simp
qed

lemma DemoteRegToStack_benign:
  assumes "users (blocks s) I \<noteq> []" "I \<in> set (ids (blocks s))" "lo \<le> next_id s"
  shows "benign lo A (blocks s) (blocks (DemoteRegToStack I AP s))"
proof (rule benign_bext)
  show "bext (newk lo) (blocks s) (blocks (DemoteRegToStack I AP s))"
    using DemoteRegToStack_bext[OF assms(1)] assms(3) by (auto intro: bext_mono newk_mono)
  show "umono lo (blocks s) (blocks (DemoteRegToStack I AP s))"
    using assms by (rule DemoteRegToStack_umono)
  show "set (ids (blocks (DemoteRegToStack I AP s))) \<subseteq> set (ids (blocks s)) \<union> {lo ..}"
    using idgrow_set[OF DemoteRegToStack_idgrow[of s I AP]] assms(3) by auto
qed

lemma demoteAll_benign:
  "distinct ds \<Longrightarrow> (\<forall>d \<in> set ds. refd d (blocks s) \<and> d \<in> set (ids (blocks s))) \<Longrightarrow> lo \<le> next_id s \<Longrightarrow>
   benign lo A (blocks s) (blocks (demoteAll AP ds s))"
proof (induction ds arbitrary: s)
  case Nil
  then show ?case by (simp add: demoteAll_def benign_refl)
next
  case (Cons d ds)
  define s1 where "s1 = DemoteRegToStack d AP s"
  have u: "users (blocks s) d \<noteq> []" using Cons.prems(2) by (simp add: users_Nil_iff)
  have din: "d \<in> set (ids (blocks s))" using Cons.prems(2) by simp
  have b1: "benign lo A (blocks s) (blocks s1)"
    unfolding s1_def using u din Cons.prems(3) by (rule DemoteRegToStack_benign)
  have n1: "next_id s \<le> next_id s1" unfolding s1_def by (rule next_id_DemoteRegToStack)
  have ids1: "set (ids (blocks s)) \<subseteq> set (ids (blocks s1))"
    unfolding s1_def using DemoteRegToStack_bext[OF u] bext_ids_old by blast
  have "\<forall>e \<in> set ds. refd e (blocks s1) \<and> e \<in> set (ids (blocks s1))"
  proof
    fix e assume e: "e \<in> set ds"
    then have "e \<noteq> d" using Cons.prems(1) by auto
    moreover have "refd e (blocks s)" using e Cons.prems(2) by simp
    ultimately have "refd e (blocks s1)" unfolding s1_def using u by (intro DemoteRegToStack_refd)
    moreover have "e \<in> set (ids (blocks s1))" using e Cons.prems(2) ids1 by auto
    ultimately show "refd e (blocks s1) \<and> e \<in> set (ids (blocks s1))" by simp
  qed
  then have "benign lo A (blocks s1) (blocks (demoteAll AP ds s1))"
    using Cons.IH[of s1] Cons.prems(1,3) n1 by simp
  moreover have "demoteAll AP (d # ds) s = demoteAll AP ds s1" by (simp add: demoteAll_def s1_def)
  ultimately show ?case using benign_trans[OF b1] by simp
qed

lemma ccalls_append [simp]: "ccalls (xs @ ys) = ccalls xs \<union> ccalls ys"
  and ccalls_Nil [simp]: "ccalls [] = {}"
  and ccalls_Cons: "ccalls (x # xs) = (if isCall x then insert (skel x) (ccalls xs) else ccalls xs)"
  by (auto simp: ccalls_def)

lemma ccalls_set: "set xs = set ys \<Longrightarrow> ccalls xs = ccalls ys"
  by (simp add: ccalls_def)

lemma cset_Cons: "cset (B # F) = ccalls (insts B) \<union> cset F"
  by (simp add: cset_def)

lemma cset_Nil [simp]: "cset [] = {}"
  by (simp add: cset_def)

lemma cset_at_block:
  "ccalls (f (block_insts F a)) = ccalls (block_insts F a) \<Longrightarrow> cset (at_block a f F) = cset F"
proof (induction F)
  case Nil
  then show ?case by simp
next
  case (Cons B F)
  show ?case
  proof (cases "baddr B = a")
    case True
    then have "ccalls (f (insts B)) = ccalls (insts B)" using Cons.prems by simp
    then show ?thesis using True by (simp add: cset_Cons)
  next
    case False
    then have "ccalls (f (block_insts F a)) = ccalls (block_insts F a)" using Cons.prems by simp
    then have "cset (at_block a f F) = cset F" by (rule Cons.IH)
    then show ?thesis using False by (simp add: cset_Cons)
  qed
qed

lemma distinct_ids_eq: "distinct (map iid xs) \<Longrightarrow> I \<in> set xs \<Longrightarrow> C \<in> set xs \<Longrightarrow> iid I = iid C \<Longrightarrow> I = C"
  by (auto simp: distinct_map dest: inj_onD)

lemma all_insts_split_at_set:
  "set (all_insts (split_at P c R n F)) \<subseteq> insert (Instr n [] (Br R)) (set (all_insts F))"
proof (induction F)
  case Nil
  then show ?case by simp
next
  case (Cons B F)
  have "set (upto_inst c (insts B)) \<union> set (after_inst c (insts B)) = set (insts B)"
    by (metis set_append upto_after)
  then show ?case using Cons by auto
qed

lemma cset_split_at: "cset (split_at P c R n F) = cset F"
proof (induction F)
  case Nil
  then show ?case by simp
next
  case (Cons B F)
  have "ccalls (upto_inst c (insts B)) \<union> ccalls (after_inst c (insts B)) = ccalls (insts B)"
    by (metis ccalls_append upto_after)
  moreover have "ccalls [Instr n [] (Br R)] = {}" by (simp add: ccalls_Cons isCall_def)
  ultimately show ?case using Cons by (auto simp: cset_Cons)
qed

lemma operands_replaceIncomingBlockWith [simp]:
  "operands (ikind (replaceIncomingBlockWith old new U)) = operands (ikind U)"
proof (cases "ikind U")
  case (PHI inc)
  have "map (fst \<circ> (\<lambda>(v, b). (v, if b = old then new else b))) inc = map fst inc"
    by (induction inc) auto
  then show ?thesis using PHI by (simp add: replaceIncomingBlockWith_def)
qed (auto simp: replaceIncomingBlockWith_def)

lemma uses_replaceIncomingBlockWith [simp]: "uses j (replaceIncomingBlockWith old new U) = uses j U"
  by (simp add: uses_def)

lemma phis_map_sub:
  "U \<in> set (phis_map g xs) \<Longrightarrow> U \<in> set xs \<or> (\<exists>V \<in> set xs. U = g V)"
  by (auto simp: phis_map_def dest: set_takeWhileD set_dropWhileD)

lemma umono_replaceSuccessorsPhiUsesWith: "umono lo F (replaceSuccessorsPhiUsesWith old new F)"
proof -
  have "\<And>A U. U \<in> set (all_insts (map (\<lambda>B. if baddr B \<in> A then map_insts (phis_map (replaceIncomingBlockWith old new)) B else B) F))
      \<Longrightarrow> \<exists>V \<in> set (all_insts F). skel V = skel U \<and> (\<forall>j. uses j U = uses j V)"
  proof (induction F)
    case Nil
    then show ?case by simp
  next
    case (Cons B F)
    show ?case
    proof (cases "U \<in> set (insts (if baddr B \<in> A then map_insts (phis_map (replaceIncomingBlockWith old new)) B else B))")
      case True
      then have "U \<in> set (insts B) \<or> (\<exists>V \<in> set (insts B). U = replaceIncomingBlockWith old new V)"
        using phis_map_sub by (auto split: if_splits)
      then obtain V where "V \<in> set (insts B)" "skel V = skel U" "\<forall>j. uses j U = uses j V"
        by auto
      then show ?thesis by auto
    next
      case False
      then have "U \<in> set (all_insts (map (\<lambda>B. if baddr B \<in> A then map_insts (phis_map (replaceIncomingBlockWith old new)) B else B) F))"
        using Cons.prems by auto
      then obtain V where "V \<in> set (all_insts F)" "skel V = skel U" "\<forall>j. uses j U = uses j V"
        using Cons.IH by blast
      then show ?thesis by auto
    qed
  qed
  then have "\<And>A. umono lo F (map (\<lambda>B. if baddr B \<in> A then map_insts (phis_map (replaceIncomingBlockWith old new)) B else B) F)"
    unfolding umono_def by blast
  then show ?thesis
    by (auto simp: replaceSuccessorsPhiUsesWith_def umono_refl split: option.splits)
qed

lemma split_benign:
  assumes "lo \<le> n"
  shows "benign lo A F (replaceSuccessorsPhiUsesWith P R (split_at P c R n F))"
proof (rule benignI)
  fix S assume S: "\<forall>k \<in> S. iid k < lo \<and> iid k \<notin> A"
  have "skel (Instr n [] (Br R)) \<notin> S" using S assms by (auto simp: skel_def)
  then have "view S (all_insts (split_at P c R n F)) = view S (all_insts F)" by (rule view_split_at)
  moreover have "view S (all_insts (replaceSuccessorsPhiUsesWith P R (split_at P c R n F))) = view S (all_insts (split_at P c R n F))"
    using bext_replaceSuccessorsPhiUsesWith[of "\<lambda>n. False"] bext_view by blast
  ultimately show "view S (all_insts (replaceSuccessorsPhiUsesWith P R (split_at P c R n F))) = view S (all_insts F)"
    by simp
next
  have 1: "umono lo F (split_at P c R n F)"
    by (rule umono_insert[OF all_insts_split_at_set]) (auto simp: uses_def)
  have "set (ids (split_at P c R n F)) \<subseteq> set (ids F) \<union> {lo ..}"
    using idgrow_set[OF idgrow_split_at[of n F P c R]] assms by auto
  then show "umono lo F (replaceSuccessorsPhiUsesWith P R (split_at P c R n F))"
    using umono_trans[OF 1 umono_replaceSuccessorsPhiUsesWith] by blast
next
  show "set (ids (replaceSuccessorsPhiUsesWith P R (split_at P c R n F))) \<subseteq> set (ids F) \<union> {lo ..}"
    using idgrow_set[OF idgrow_split_at[of n F P c R]] assms by auto
next
  have "cset (replaceSuccessorsPhiUsesWith P R (split_at P c R n F)) = cset (split_at P c R n F)"
    using bext_replaceSuccessorsPhiUsesWith[of "newk lo"] bext_cset by blast
  then show "cset (replaceSuccessorsPhiUsesWith P R (split_at P c R n F)) = cset F"
    by (simp add: cset_split_at)
qed

lemma all_insts_at_block_set:
  "distinct (addrs F) \<Longrightarrow> a \<in> set (addrs F) \<Longrightarrow>
   set (all_insts (at_block a f F)) = set (f (block_insts F a)) \<union> \<Union> (set ` block_insts F ` (set (addrs F) - {a}))"
proof -
  assume d: "distinct (addrs F)" and a: "a \<in> set (addrs F)"
  have d': "distinct (addrs (at_block a f F))" using d by simp
  have "set (all_insts (at_block a f F)) = \<Union> (set ` block_insts (at_block a f F) ` set (addrs F))"
    using all_insts_blocks[OF d'] by simp
  also have "\<dots> = set (block_insts (at_block a f F) a) \<union> \<Union> (set ` block_insts (at_block a f F) ` (set (addrs F) - {a}))"
    using a by auto
  also have "\<dots> = set (f (block_insts F a)) \<union> \<Union> (set ` block_insts F ` (set (addrs F) - {a}))"
    using a by (auto simp: block_insts_at_block[OF d])
  finally show ?thesis .
qed

lemma all_insts_set_blocks:
  "distinct (addrs F) \<Longrightarrow> set (all_insts F) = \<Union> (set ` block_insts F ` set (addrs F))"
  using all_insts_blocks[of F] by simp

lemma set_erase1: "distinct (map iid xs) \<Longrightarrow> set (erase1 c xs) = {I \<in> set xs. iid I \<noteq> c}"
proof (induction xs)
  case Nil
  then show ?case by simp
next
  case (Cons x xs)
  then show ?case by (auto simp: image_iff)
qed

lemma move_set:
  assumes "distinct (addrs F)" "distinct (ids F)" "getParent F c = Some P" "find_inst F c = Some C"
    "R \<in> set (addrs F)" "R \<noteq> P"
  shows "set (all_insts (moveBeforeFirstNonPHI c R F)) = set (all_insts F)"
proof -
  have Pin: "P \<in> set (addrs F)" using assms(3) getParent_Some_in by blast
  have d3: "distinct (addrs (moveBeforeFirstNonPHI c R F))" using assms(1) by simp
  have bi: "\<And>a. block_insts (moveBeforeFirstNonPHI c R F) a =
     (if a = P then erase1 c (block_insts F P)
      else if a = R then takeWhile isPHI (block_insts F R) @ C # dropWhile isPHI (block_insts F R)
      else block_insts F a)"
    using block_insts_move[OF assms(1,3,4,5,6)] by simp
  have Cin: "C \<in> set (all_insts F)" "iid C = c" using find_inst_Some[OF assms(4)] by auto
  have cP: "c \<in> iid ` set (block_insts F P)" using getParent_block[OF assms(1,3)] .
  have dP: "distinct (map iid (block_insts F P))" using distinct_block_ids[OF assms(2)] .
  have CP: "C \<in> set (block_insts F P)"
  proof -
    obtain D where D: "D \<in> set (block_insts F P)" "iid D = c" using cP by auto
    then have "D \<in> set (all_insts F)" using block_ids_subset by blast
    then have "D = C" using Cin D(2) assms(2) distinct_ids_eq[of "all_insts F" D C] by (simp add: ids_def)
    then show ?thesis using D(1) by simp
  qed
  have e1: "set (erase1 c (block_insts F P)) = set (block_insts F P) - {C}"
  proof -
    have "\<And>I. I \<in> set (block_insts F P) \<Longrightarrow> iid I = c \<Longrightarrow> I = C"
      using CP Cin(2) distinct_ids_eq[OF dP] by simp
    then show ?thesis using set_erase1[OF dP, of c] Cin(2) by auto
  qed
  have e2: "set (takeWhile isPHI (block_insts F R) @ C # dropWhile isPHI (block_insts F R)) = insert C (set (block_insts F R))"
  proof -
    have "set (block_insts F R) = set (takeWhile isPHI (block_insts F R) @ dropWhile isPHI (block_insts F R))" by simp
    then show ?thesis by (auto simp del: takeWhile_dropWhile_id)
  qed
  have "set (all_insts (moveBeforeFirstNonPHI c R F)) = \<Union> (set ` block_insts (moveBeforeFirstNonPHI c R F) ` set (addrs F))"
    using all_insts_set_blocks[OF d3] by simp
  also have "\<dots> = \<Union> (set ` block_insts F ` set (addrs F))"
  proof (rule set_eqI)
    fix I
    show "I \<in> \<Union> (set ` block_insts (moveBeforeFirstNonPHI c R F) ` set (addrs F)) \<longleftrightarrow> I \<in> \<Union> (set ` block_insts F ` set (addrs F))"
    proof
      assume "I \<in> \<Union> (set ` block_insts (moveBeforeFirstNonPHI c R F) ` set (addrs F))"
      then obtain a where a: "a \<in> set (addrs F)" "I \<in> set (block_insts (moveBeforeFirstNonPHI c R F) a)" by auto
      then have "I \<in> set (block_insts F a) \<or> I = C" using bi[of a] e1 e2 by (auto split: if_splits)
      then show "I \<in> \<Union> (set ` block_insts F ` set (addrs F))" using a(1) CP Pin by auto
    next
      assume "I \<in> \<Union> (set ` block_insts F ` set (addrs F))"
      then obtain a where a: "a \<in> set (addrs F)" "I \<in> set (block_insts F a)" by auto
      show "I \<in> \<Union> (set ` block_insts (moveBeforeFirstNonPHI c R F) ` set (addrs F))"
      proof (cases "I = C")
        case True
        then have "I \<in> set (block_insts (moveBeforeFirstNonPHI c R F) R)" using bi[of R] e2 assms(6) by simp
        then show ?thesis using assms(5) by blast
      next
        case False
        then have "I \<in> set (block_insts (moveBeforeFirstNonPHI c R F) a)"
          using a(2) bi[of a] e1 e2 by auto
        then show ?thesis using a(1) by blast
      qed
    qed
  qed
  also have "\<dots> = set (all_insts F)" using all_insts_set_blocks[OF assms(1)] by simp
  finally show ?thesis .
qed

lemma move_benign:
  assumes "distinct (addrs F)" "distinct (ids F)" "getParent F c = Some P" "find_inst F c = Some C"
    "R \<in> set (addrs F)" "R \<noteq> P" "c \<in> A"
  shows "benign lo A F (moveBeforeFirstNonPHI c R F)"
proof (rule benignI)
  fix S assume S: "\<forall>k \<in> S. iid k < lo \<and> iid k \<notin> A"
  then have "\<forall>k \<in> S. iid k \<noteq> c" using assms(7) by auto
  then show "view S (all_insts (moveBeforeFirstNonPHI c R F)) = view S (all_insts F)" by (rule view_move)
next
  show "umono lo F (moveBeforeFirstNonPHI c R F)"
    using move_set[OF assms(1-6)] by (intro umono_subset) simp
next
  show "set (ids (moveBeforeFirstNonPHI c R F)) \<subseteq> set (ids F) \<union> {lo ..}"
    using move_set[OF assms(1-6)] by (simp add: ids_def)
next
  show "cset (moveBeforeFirstNonPHI c R F) = cset F"
    using move_set[OF assms(1-6)] by (simp add: cset_def ccalls_def)
qed

lemma branch_benign:
  assumes "distinct (addrs (blocks s))" "P \<in> set (addrs (blocks s))" "lo \<le> next_id s"
    "block_insts (blocks s) P \<noteq> []" "lo \<le> iid (last (block_insts (blocks s) P))"
    "\<not> isCall (last (block_insts (blocks s) P))"
  shows "benign lo A (blocks s) (blocks (branchToCallBlock cb P s))"
proof (rule benignI)
  fix S assume S: "\<forall>k \<in> S. iid k < lo \<and> iid k \<notin> A"
  show "view S (all_insts (blocks (branchToCallBlock cb P s))) = view S (all_insts (blocks s))"
  proof (rule view_branchToCallBlock)
    show "\<forall>k \<in> S. iid k \<noteq> next_id s" using S assms(3) by auto
    show "skel (last (block_insts (blocks s) P)) \<notin> S" using S assms(5) by (metis skel_simps(1) not_le)
  qed
next
  define es where "es = block_insts (blocks s) P"
  define br where "br = Instr (next_id s) [] (Br cb)"
  have sub: "set (butlast es @ [br]) \<subseteq> insert br (set es)" by (auto dest: in_set_butlastD)
  have "set (all_insts (blocks (branchToCallBlock cb P s))) \<subseteq> insert br (set (all_insts (blocks s)))"
    unfolding branchToCallBlock_def br_def
    by (simp, intro all_insts_at_block_sub) (auto dest: in_set_butlastD)
  then show "umono lo (blocks s) (blocks (branchToCallBlock cb P s))"
    by (rule umono_insert) (auto simp: br_def uses_def)
next
  show "set (ids (blocks (branchToCallBlock cb P s))) \<subseteq> set (ids (blocks s)) \<union> {lo ..}"
    using idgrow_set[OF idgrow_branchToCallBlock[of s cb P]] assms(3) by auto
next
  define es where "es = block_insts (blocks s) P"
  have es: "butlast es @ [last es] = es" using assms(4) by (simp add: es_def)
  have "ccalls (butlast es @ [Instr (next_id s) [] (Br cb)]) = ccalls (butlast es)"
    by (simp add: ccalls_Cons isCall_def)
  also have "\<dots> = ccalls (butlast es @ [last es])"
    using assms(6) by (simp add: es_def ccalls_Cons)
  also have "\<dots> = ccalls es" using es by simp
  finally show "cset (blocks (branchToCallBlock cb P s)) = cset (blocks s)"
    unfolding branchToCallBlock_def by (simp add: es_def cset_at_block)
qed

subsection \<open>After its demotion an instruction is read by its store only\<close>

lemma not_uses_replaceUsesOfWith: "I \<noteq> n \<Longrightarrow> \<not> uses I (replaceUsesOfWith (VInst I) (VInst n) U)"
  by (auto simp: uses_def replaceUsesOfWith_def operands_map_operands subst_def)

lemma reload_list_complete:
  "I < n \<Longrightarrow> I \<noteq> slot \<Longrightarrow> U \<in> set (reload_list I nm slot n xs) \<Longrightarrow> uses I U \<Longrightarrow> isPHI U"
proof (induction xs arbitrary: n)
  case Nil
  then show ?case by simp
next
  case (Cons x xs)
  show ?case
  proof (cases "uses I x \<and> \<not> isPHI x")
    case True
    then have e: "reload_list I nm slot n (x # xs) =
        Instr n (nm @ ''.reload'') (Load (VInst slot)) # replaceUsesOfWith (VInst I) (VInst n) x # reload_list I nm slot (Suc n) xs"
      by simp
    from Cons.prems(3) e consider
      (a) "U = Instr n (nm @ ''.reload'') (Load (VInst slot))"
      | (b) "U = replaceUsesOfWith (VInst I) (VInst n) x"
      | (c) "U \<in> set (reload_list I nm slot (Suc n) xs)"
      by auto
    then show ?thesis
    proof cases
      case a
      then have "\<not> uses I U" using Cons.prems(2) by (auto simp: uses_def)
      then show ?thesis using Cons.prems(4) by simp
    next
      case b
      then have "\<not> uses I U" using not_uses_replaceUsesOfWith[of I n x] Cons.prems(1) by simp
      then show ?thesis using Cons.prems(4) by simp
    next
      case c
      have "I < Suc n" using Cons.prems(1) by simp
      from Cons.IH[OF this Cons.prems(2) c Cons.prems(4)] show ?thesis .
    qed
  next
    case False
    then have e: "reload_list I nm slot n (x # xs) = x # reload_list I nm slot n xs" by auto
    from Cons.prems(3) e consider (a) "U = x" | (c) "U \<in> set (reload_list I nm slot n xs)" by auto
    then show ?thesis
    proof cases
      case a
      then show ?thesis using False Cons.prems(4) by auto
    next
      case c
      from Cons.IH[OF Cons.prems(1,2) c Cons.prems(4)] show ?thesis .
    qed
  qed
qed

lemma reload_blocks_complete:
  "I < n \<Longrightarrow> I \<noteq> slot \<Longrightarrow> U \<in> set (all_insts (reload_blocks I nm slot n F)) \<Longrightarrow> uses I U \<Longrightarrow> isPHI U"
proof (induction F arbitrary: n)
  case Nil
  then show ?case by simp
next
  case (Cons B F)
  from Cons.prems(3) consider
    (a) "U \<in> set (reload_list I nm slot n (insts B))"
    | (b) "U \<in> set (all_insts (reload_blocks I nm slot (n + n_reloads I (insts B)) F))"
    by auto
  then show ?case
  proof cases
    case a
    from reload_list_complete[OF Cons.prems(1,2) a Cons.prems(4)] show ?thesis .
  next
    case b
    have "I < n + n_reloads I (insts B)" using Cons.prems(1) by simp
    from Cons.IH[OF this Cons.prems(2) b Cons.prems(4)] show ?thesis .
  qed
qed

lemma phi_reqs_has:
  "U \<in> set (all_insts F) \<Longrightarrow> ikind U = PHI inc \<Longrightarrow> (VInst I, b) \<in> set inc \<Longrightarrow> (iid U, b) \<in> set (phi_reqs I F)"
  unfolding phi_reqs_def phi_blocks_def by force

lemma isPHI_reload_phi [simp]: "isPHI (reload_phi I tab U) = isPHI U"
  by (cases U) (auto simp: isPHI_def reload_phi_def split: kind.splits)

lemma reload_phi_complete:
  assumes "U \<in> set (all_insts F)" "isPHI U" "\<forall>e \<in> set tab. snd e \<noteq> I"
    "set (phi_reqs I F) \<subseteq> fst ` set tab"
  shows "\<not> uses I (reload_phi I tab U)"
proof -
  obtain inc where inc: "ikind U = PHI inc" using assms(2) by (cases "ikind U") (auto simp: isPHI_def)
  define g where "g = (\<lambda>(v, b). if v = VInst I
              then (case map_of tab (iid U, b) of Some ld \<Rightarrow> (VInst ld, b) | None \<Rightarrow> (v, b))
              else (v, b))"
  have k: "ikind (reload_phi I tab U) = PHI (map g inc)"
    using inc by (simp add: reload_phi_def g_def)
  have "\<And>v b. (v, b) \<in> set inc \<Longrightarrow> fst (g (v, b)) \<noteq> VInst I"
  proof -
    fix v b assume vb: "(v, b) \<in> set inc"
    show "fst (g (v, b)) \<noteq> VInst I"
    proof (cases "v = VInst I")
      case True
      then have "(iid U, b) \<in> set (phi_reqs I F)" using phi_reqs_has[OF assms(1) inc] vb by simp
      then have "(iid U, b) \<in> fst ` set tab" using assms(4) by blast
      then obtain ld where ld: "map_of tab (iid U, b) = Some ld"
        by (metis domIff dom_map_of_conv_image_fst not_Some_eq)
      then have "((iid U, b), ld) \<in> set tab" by (rule map_of_SomeD)
      then have "ld \<noteq> I" using assms(3) by auto
      then show ?thesis using True ld by (simp add: g_def)
    next
      case False
      then show ?thesis by (simp add: g_def)
    qed
  qed
  then have "VInst I \<notin> fst ` g ` set inc" by force
  then show ?thesis using k by (simp add: uses_def image_image)
qed

lemma reload_phi_nonphi: "\<not> isPHI U \<Longrightarrow> reload_phi I tab U = U"
  by (cases U) (auto simp: isPHI_def reload_phi_def split: kind.splits)

lemma DemoteRegToStack_complete:
  assumes "users (blocks s) I \<noteq> []" "I < next_id s"
    and "U \<in> set (all_insts (blocks (DemoteRegToStack I AP s)))" "uses I U"
  shows "isStorek (ikind U)"
proof -
  define n where "n = next_id s"
  define nm where "nm = (case find_inst (blocks s) I of Some Inst \<Rightarrow> iname Inst | None \<Rightarrow> [])"
  define F1 where "F1 = insertBefore AP (Instr n (nm @ ''.reg2mem'') Alloca) (blocks s)"
  define F2 where "F2 = reload_blocks I nm n (Suc n) F1"
  define n2 where "n2 = Suc n + n_reloads I (all_insts F1)"
  define tab where "tab = zip (phi_reqs I F2) [n2 ..< n2 + length (phi_reqs I F2)]"
  define F3 where "F3 = map (map_insts (map (reload_phi I tab))) F2"
  define F4 where "F4 = fold (\<lambda>((u, b), ld). insertBeforeTerminator b (Instr ld (nm @ ''.reload'') (Load (VInst n)))) tab F3"
  define st where "st = Instr (n2 + length tab) [] (Store (VInst I) (VInst n))"
  define F5 where "F5 = insertStore I st F4"
  have res: "blocks (DemoteRegToStack I AP s) = F5"
    using assms(1) unfolding DemoteRegToStack_def Let_def F5_def st_def F4_def F3_def tab_def n2_def F2_def F1_def nm_def n_def
    by simp
  have In: "I < n" using assms(2) by (simp add: n_def)
  have c2: "\<And>V. V \<in> set (all_insts F2) \<Longrightarrow> uses I V \<Longrightarrow> isPHI V"
    unfolding F2_def using reload_blocks_complete[of I "Suc n" n] In by auto
  have tabI: "\<forall>e \<in> set tab. snd e \<noteq> I"
    unfolding tab_def n2_def using In by (auto dest!: set_zip_rightD)
  have tabfst: "set (phi_reqs I F2) \<subseteq> fst ` set tab"
  proof -
    have "map fst tab = phi_reqs I F2" unfolding tab_def by simp
    then show ?thesis by (metis set_map subset_refl)
  qed
  have c3: "\<And>V. V \<in> set (all_insts F3) \<Longrightarrow> \<not> uses I V"
  proof -
    fix V assume "V \<in> set (all_insts F3)"
    then obtain W where W: "W \<in> set (all_insts F2)" "V = reload_phi I tab W"
      unfolding F3_def all_insts_map by auto
    show "\<not> uses I V"
    proof (cases "isPHI W")
      case True
      then show ?thesis using reload_phi_complete[OF W(1) True tabI tabfst] W(2) by simp
    next
      case False
      then have "V = W" using W(2) reload_phi_nonphi by simp
      then show ?thesis using c2[OF W(1)] False by auto
    qed
  qed
  have c4: "\<And>V. V \<in> set (all_insts F4) \<Longrightarrow> \<not> uses I V"
  proof -
    fix V assume "V \<in> set (all_insts F4)"
    then have "V \<in> {Instr ld (nm @ ''.reload'') (Load (VInst n)) | ld. True} \<union> set (all_insts F3)"
      unfolding F4_def using phi_loads_sub by blast
    then show "\<not> uses I V" using c3 In by (auto simp: uses_def)
  qed
  have "set (all_insts F5) \<subseteq> insert st (set (all_insts F4))"
    unfolding F5_def insertStore_def by (intro all_insts_at_inst_sub set_ins_store_sub)
  then have "U = st \<or> U \<in> set (all_insts F4)" using assms(3) res by auto
  then show ?thesis using c4 assms(4) by (auto simp: st_def)
qed

lemma only_stores_umono:
  assumes "umono lo F G" "j < lo" "\<forall>V \<in> set (all_insts F). uses j V \<longrightarrow> isStorek (ikind V)"
  shows "\<forall>U \<in> set (all_insts G). uses j U \<longrightarrow> isStorek (ikind U)"
proof (intro ballI impI)
  fix U assume U: "U \<in> set (all_insts G)" "uses j U"
  from assms(1,2) U consider
    (old) V where "V \<in> set (all_insts F)" "skel V = skel U" "uses j V"
    | (st) "isStorek (ikind U)"
    unfolding umono_def by blast
  then show "isStorek (ikind U)"
  proof cases
    case old
    then have "isStorek (ikind V)" using assms(3) by simp
    then show ?thesis using old(2) skel_isStore by blast
  next
    case st
    then show ?thesis .
  qed
qed

section \<open>One call site\<close>

lemma ext_view_newk:
  "ext (newk lo) xs ys \<Longrightarrow> (\<forall>k \<in> S. iid k < lo) \<Longrightarrow> view S ys = view S xs"
proof (rule ext_view)
  fix n assume "\<forall>k \<in> S. iid k < lo" "newk lo n"
  then show "skel n \<notin> S" by (metis newk_def not_le skel_simps(1))
qed

lemma ext_newk_has_id:
  "ext (newk lo) xs ys \<Longrightarrow> c < lo \<Longrightarrow> c \<in> iid ` set ys \<longleftrightarrow> c \<in> iid ` set xs"
  using ext_has_id[of "newk lo" xs ys c] by (auto simp: newk_def)

lemma ext_newk_mono: "ext (newk lo) xs ys \<Longrightarrow> lo' \<le> lo \<Longrightarrow> ext (newk lo') xs ys"
  by (erule ext_mono) (rule newk_mono)

lemma bext_newk_mono: "bext (newk lo) F G \<Longrightarrow> lo' \<le> lo \<Longrightarrow> bext (newk lo') F G"
  by (erule bext_mono) (rule newk_mono)

lemma rewriteCaller_step:
  assumes fa: "fresh_alloc alloc" and iv: "ir_ok s" and par: "getParent (blocks s) c = Some P"
  shows "\<exists>s'. rewriteCaller alloc E AIP cb c (s, cTR, cOP)
           = (s', map_set P (alloc (addrs (blocks s))) cTR, map_set c P cOP)
     \<and> ir_ok s' \<and> next_id s < next_id s'
     \<and> addrs (blocks s') = addr_after P (alloc (addrs (blocks s))) (addrs (blocks s))
     \<and> benign (next_id s) {c} (blocks s) (blocks s')
     \<and> (\<forall>a. a \<noteq> P \<and> a \<noteq> alloc (addrs (blocks s)) \<longrightarrow>
           ext (newk (next_id s)) (block_insts (blocks s) a) (block_insts (blocks s') a))
     \<and> (\<forall>S. (\<forall>k\<in>S. iid k < next_id s \<and> iid k \<noteq> c) \<longrightarrow>
           view S (block_insts (blocks s') P) = view S (upto_inst c (block_insts (blocks s) P)))
     \<and> (\<forall>S. (\<forall>k\<in>S. iid k < next_id s \<and> iid k \<noteq> c) \<longrightarrow>
           view S (block_insts (blocks s') (alloc (addrs (blocks s)))) = view S (after_inst c (block_insts (blocks s) P)))
     \<and> getParent (blocks s') c = Some (alloc (addrs (blocks s)))
     \<and> block_insts (blocks s') P \<noteq> []
     \<and> ikind (last (block_insts (blocks s') P)) = Br cb
     \<and> (\<forall>U \<in> set (all_insts (blocks s')). uses c U \<longrightarrow> isStorek (ikind U))
     \<and> (\<exists>ys zs m. ext (newk (next_id s)) (upto_inst c (block_insts (blocks s) P) @ [Instr (next_id s) [] (Br (alloc (addrs (blocks s))))]) ys
           \<and> ext (newk (next_id s)) (erase1 c ys) zs \<and> zs \<noteq> [] \<and> iid (last zs) = next_id s
           \<and> next_id s \<le> m
           \<and> block_insts (blocks s') P = butlast zs @ [Instr m [] (Br cb)])
     \<and> (\<exists>ys C. ext (newk (next_id s)) (after_inst c (block_insts (blocks s) P)) ys \<and> iid C = c
           \<and> ext (newk (next_id s)) (takeWhile isPHI ys @ C # dropWhile isPHI ys)
                (block_insts (blocks s') (alloc (addrs (blocks s)))))"
proof -
  define F where "F = blocks s"
  define n where "n = next_id s"
  define R where "R = alloc (addrs F)"
  define br where "br = Instr n [] (Br R)"
  define F1' where "F1' = split_at P c R n F"
  define F1 where "F1 = replaceSuccessorsPhiUsesWith P R F1'"
  define s1 where "s1 = \<lparr>blocks = F1, next_id = Suc n\<rparr>"
  define s2 where "s2 = demoteAll AIP (toDemote E P F1) s1"
  define F3 where "F3 = moveBeforeFirstNonPHI c R (blocks s2)"
  define s3 where "s3 = s2\<lparr>blocks := F3\<rparr>"
  define s4 where "s4 = (if users F3 c \<noteq> [] then DemoteRegToStack c AIP s3 else s3)"
  define s5 where "s5 = branchToCallBlock cb P s4"
  have res: "rewriteCaller alloc E AIP cb c (s, cTR, cOP) = (s5, map_set P R cTR, map_set c P cOP)"
    using par
    unfolding rewriteCaller_def splitBasicBlock_def Let_def s5_def s4_def s3_def F3_def s2_def s1_def F1_def F1'_def
      R_def n_def F_def
    by simp
  \<comment> \<open>the input\<close>
  have dA: "distinct (addrs F)" and dI: "distinct (ids F)" and bI: "\<And>i. i \<in> set (ids F) \<Longrightarrow> i < n"
    using iv by (auto simp: ir_ok_def idinv_def F_def n_def)
  have Pin: "P \<in> set (addrs F)" and cin: "c \<in> set (ids F)"
    using getParent_Some_in[OF par[folded F_def]] by auto
  have cn: "c < n" using bI cin by simp
  have cP: "c \<in> iid ` set (block_insts F P)" using getParent_block[OF dA par[folded F_def]] .
  have Rnew: "R \<notin> set (addrs F)" using fa by (simp add: fresh_alloc_def R_def)
  have RP: "R \<noteq> P" using Rnew Pin by auto
  \<comment> \<open>after the split\<close>
  have a1: "addrs F1 = addr_after P R (addrs F)"
    using bext_addrs[OF bext_replaceSuccessorsPhiUsesWith[of "\<lambda>n. False" F1' P R]]
    by (simp add: F1_def F1'_def addrs_split_at)
  have dA1: "distinct (addrs F1)" using a1 dA Rnew by (simp add: distinct_addr_after)
  have sA1: "set (addrs F1) = insert R (set (addrs F))" using a1 Pin by (simp add: set_addr_after)
  have g1: "idgrow n (Suc n) F F1"
    unfolding F1_def F1'_def using idgrow_split_at[of n F P c R] by (simp add: idgrow_def)
  have iv1: "ir_ok s1"
    by (rule ir_ok_update[OF iv]) (use dA1 g1 in \<open>auto simp: s1_def F_def n_def\<close>)
  have b1: "benign n {c} F F1" unfolding F1_def F1'_def by (rule split_benign) simp
  have d1': "distinct (addrs F1')" using dA Rnew by (simp add: F1'_def addrs_split_at distinct_addr_after)
  have e1: "\<And>a. ext (newk n) (block_insts F1' a) (block_insts F1 a)"
    unfolding F1_def by (intro bext_block_insts bext_replaceSuccessorsPhiUsesWith)
  have bi1': "\<And>a. block_insts F1' a = (if a = P then upto_inst c (block_insts F P) @ [br]
      else if a = R then after_inst c (block_insts F P) else block_insts F a)"
    unfolding F1'_def br_def using block_insts_split_at[OF dA Rnew Pin] by simp
  \<comment> \<open>after the demotions\<close>
  have dI1: "distinct (ids F1)" using iv1 by (simp add: ir_ok_def idinv_def s1_def)
  have td: "distinct (toDemote E P F1)" "\<forall>d \<in> set (toDemote E P F1). refd d F1"
    using toDemote_props[OF dI1] by auto
  have tdin: "\<forall>d \<in> set (toDemote E P F1). d \<in> set (ids F1)"
    unfolding toDemote_def using block_ids_in by auto
  have p2: "bext (newk (Suc n)) F1 (blocks s2)" "Suc n \<le> next_id s2"
    "idgrow (Suc n) (next_id s2) F1 (blocks s2)"
    using demoteAll_props[OF td(1), of s1 AIP] td(2) by (auto simp: s2_def s1_def)
  have a2: "addrs (blocks s2) = addrs F1" using p2(1) by (rule bext_addrs)
  have iv2: "ir_ok s2"
    by (rule ir_ok_update[OF iv1]) (use a2 dA1 p2 in \<open>auto simp: s1_def\<close>)
  have b2: "benign n {c} F1 (blocks s2)"
  proof -
    have "benign n {c} (blocks s1) (blocks (demoteAll AIP (toDemote E P F1) s1))"
      by (rule demoteAll_benign) (use td tdin in \<open>auto simp: s1_def\<close>)
    then show ?thesis by (simp add: s2_def s1_def)
  qed
  have e2: "\<And>a. ext (newk n) (block_insts F1 a) (block_insts (blocks s2) a)"
    by (rule ext_newk_mono[OF bext_block_insts[OF p2(1)]]) simp
  \<comment> \<open>after the move\<close>
  have cP1: "c \<in> iid ` set (block_insts F1 P)"
  proof -
    have "c \<in> iid ` set (block_insts F1' P)" using upto_has[OF cP] by (simp add: bi1')
    then show ?thesis using ext_newk_has_id[OF e1 cn] by simp
  qed
  have cP2: "c \<in> iid ` set (block_insts (blocks s2) P)" using ext_newk_has_id[OF e2 cn] cP1 by simp
  have dA2: "distinct (addrs (blocks s2))" and dI2: "distinct (ids (blocks s2))"
    using iv2 by (auto simp: ir_ok_def idinv_def)
  have par2: "getParent (blocks s2) c = Some P" using block_getParent[OF dI2 cP2] .
  obtain C where C: "find_inst (blocks s2) c = Some C"
    using cP2 block_ids_in find_inst_None_iff[of "blocks s2" c] by (cases "find_inst (blocks s2) c") auto
  have Rin2: "R \<in> set (addrs (blocks s2))" using a2 sA1 by simp
  have bi3: "\<And>a. block_insts F3 a = (if a = P then erase1 c (block_insts (blocks s2) P)
      else if a = R then takeWhile isPHI (block_insts (blocks s2) R) @ C # dropWhile isPHI (block_insts (blocks s2) R)
      else block_insts (blocks s2) a)"
    unfolding F3_def using block_insts_move[OF dA2 par2 C Rin2 RP] by simp
  have a3: "addrs F3 = addrs F1" by (simp add: F3_def a2)
  have iv3: "ir_ok s3"
  proof (rule ir_ok_update[OF iv2])
    show "idgrow (next_id s2) (next_id s3) (blocks s2) (blocks s3)"
      unfolding s3_def F3_def using idgrow_move[of "next_id s2" "blocks s2" c R] by simp
  qed (use a3 dA1 in \<open>auto simp: s3_def\<close>)
  have b3: "benign n {c} (blocks s2) F3"
    unfolding F3_def by (rule move_benign[OF dA2 dI2 par2 C Rin2 RP]) simp
  have n3: "next_id s3 = next_id s2" by (simp add: s3_def)
  have bl3: "blocks s3 = F3" by (simp add: s3_def)
  \<comment> \<open>after the demotion of the call\<close>
  have cin3: "c \<in> set (ids F3)"
  proof -
    have "C \<in> set (block_insts F3 R)" using bi3[of R] RP by simp
    moreover have "iid C = c" using find_inst_Some[OF C] by simp
    ultimately show ?thesis using block_ids_in by blast
  qed
  have n4: "next_id s3 \<le> next_id s4" by (simp add: s4_def next_id_DemoteRegToStack)
  have bx4: "bext (newk n) F3 (blocks s4)"
  proof (cases "users F3 c = []")
    case True
    then show ?thesis by (simp add: s4_def bl3)
  next
    case False
    have "bext (newk (next_id s3)) (blocks s3) (blocks (DemoteRegToStack c AIP s3))"
      by (rule DemoteRegToStack_bext) (use False bl3 in simp)
    then have "bext (newk n) (blocks s3) (blocks (DemoteRegToStack c AIP s3))"
      by (rule bext_newk_mono) (use p2(2) n3 in simp)
    then show ?thesis using False by (simp add: s4_def bl3)
  qed
  have iv4: "ir_ok s4" using iv3 by (simp add: s4_def DemoteRegToStack_ok)
  have b4: "benign n {c} F3 (blocks s4)"
  proof (cases "users F3 c = []")
    case True
    then show ?thesis by (simp add: s4_def bl3 benign_refl)
  next
    case False
    have "benign n {c} (blocks s3) (blocks (DemoteRegToStack c AIP s3))"
      by (rule DemoteRegToStack_benign) (use False bl3 cin3 p2(2) n3 in auto)
    then show ?thesis using False by (simp add: s4_def bl3)
  qed
  have e4: "\<And>a. ext (newk n) (block_insts F3 a) (block_insts (blocks s4) a)"
    using bext_block_insts[OF bx4] .
  have a4: "addrs (blocks s4) = addrs F1" using bext_addrs[OF bx4] a3 by simp
  have nn4: "n \<le> next_id s4" using p2(2) n3 n4 by simp
  \<comment> \<open>block \<open>P\<close> before the branch\<close>
  have eP2: "ext (newk n) (upto_inst c (block_insts F P) @ [br]) (block_insts (blocks s2) P)"
    using ext_newk_trans[OF e1[of P] e2[of P]] by (simp add: bi1')
  have ne2: "block_insts (blocks s2) P \<noteq> []" using eP2 ext_Nil_iff by fastforce
  have l2: "skel (last (block_insts (blocks s2) P)) = skel br"
    using ext_last[OF eP2] by simp
  then have il2: "iid (last (block_insts (blocks s2) P)) = n" by (metis skel_simps(1) br_def instr.sel(1))
  have l3: "block_insts F3 P \<noteq> []" "last (block_insts F3 P) = last (block_insts (blocks s2) P)"
    using last_erase1[OF ne2, of c] il2 cn bi3[of P] by auto
  have ne4: "block_insts (blocks s4) P \<noteq> []" using e4[of P] l3(1) ext_Nil_iff by blast
  have l4: "skel (last (block_insts (blocks s4) P)) = skel br"
    using ext_last[OF e4[of P] l3(1)] l3(2) l2 by simp
  have il4: "iid (last (block_insts (blocks s4) P)) = n" using l4 by (metis skel_simps(1) br_def instr.sel(1))
  have nc4: "\<not> isCall (last (block_insts (blocks s4) P))"
    using l4 skel_isCall[of "last (block_insts (blocks s4) P)" br] by (simp add: br_def isCall_def)
  \<comment> \<open>after the branch\<close>
  have dA4: "distinct (addrs (blocks s4))" using a4 dA1 by simp
  have Pin4: "P \<in> set (addrs (blocks s4))" using a4 sA1 Pin by simp
  have b5: "benign n {c} (blocks s4) (blocks s5)"
    unfolding s5_def by (rule branch_benign[OF dA4 Pin4 nn4 ne4]) (use il4 nc4 in auto)
  have bi5: "\<And>a. block_insts (blocks s5) a =
     (if a = P then butlast (block_insts (blocks s4) P) @ [Instr (next_id s4) [] (Br cb)]
      else block_insts (blocks s4) a)"
    unfolding s5_def using block_insts_branchToCallBlock[OF dA4 Pin4] by simp
  have a5: "addrs (blocks s5) = addrs F1" by (simp add: s5_def a4)
  have iv5: "ir_ok s5"
  proof (rule ir_ok_update[OF iv4])
    show "idgrow (next_id s4) (next_id s5) (blocks s4) (blocks s5)"
      unfolding s5_def using idgrow_branchToCallBlock[of s4 cb P] by simp
  qed (use a5 dA1 in \<open>auto simp: s5_def\<close>)
  have n5: "n < next_id s5" using nn4 by (simp add: s5_def)
  have bn: "benign n {c} F (blocks s5)"
    using benign_trans[OF benign_trans[OF benign_trans[OF benign_trans[OF b1 b2] b3] b4] b5] .
  \<comment> \<open>the other blocks\<close>
  have oth: "\<And>a. a \<noteq> P \<Longrightarrow> a \<noteq> R \<Longrightarrow> ext (newk n) (block_insts F a) (block_insts (blocks s5) a)"
  proof -
    fix a assume a: "a \<noteq> P" "a \<noteq> R"
    have "ext (newk n) (block_insts F a) (block_insts (blocks s2) a)"
      using ext_newk_trans[OF e1[of a] e2[of a]] a by (simp add: bi1')
    then have "ext (newk n) (block_insts F a) (block_insts F3 a)" using a by (simp add: bi3)
    then have "ext (newk n) (block_insts F a) (block_insts (blocks s4) a)"
      using ext_newk_trans e4[of a] by blast
    then show "ext (newk n) (block_insts F a) (block_insts (blocks s5) a)" using a by (simp add: bi5)
  qed
  \<comment> \<open>the views of \<open>P\<close> and \<open>R\<close>\<close>
  have vP: "\<And>S. \<forall>k\<in>S. iid k < n \<and> iid k \<noteq> c \<Longrightarrow>
      view S (block_insts (blocks s5) P) = view S (upto_inst c (block_insts F P))"
  proof -
    fix S assume S: "\<forall>k\<in>S. iid k < n \<and> iid k \<noteq> c"
    then have S': "\<forall>k\<in>S. iid k < n" by simp
    have brS: "skel br \<notin> S" using S by (auto simp: br_def skel_def)
    have 1: "view S (block_insts (blocks s2) P) = view S (upto_inst c (block_insts F P))"
      using ext_view_newk[OF eP2 S'] brS by (simp add: view_Cons)
    have 2: "view S (block_insts F3 P) = view S (block_insts (blocks s2) P)"
      using S by (simp add: bi3 view_erase1)
    have 3: "view S (block_insts (blocks s4) P) = view S (block_insts F3 P)"
      using ext_view_newk[OF e4[of P] S'] .
    have "skel (last (block_insts (blocks s4) P)) \<notin> S" using l4 brS by simp
    then have 4: "view S (butlast (block_insts (blocks s4) P)) = view S (block_insts (blocks s4) P)"
      using view_butlast[OF ne4] by blast
    have "skel (Instr (next_id s4) [] (Br cb)) \<notin> S" using S nn4 by (auto simp: skel_def)
    then have "view S (block_insts (blocks s5) P) = view S (butlast (block_insts (blocks s4) P))"
      by (simp add: bi5 view_Cons)
    then show "view S (block_insts (blocks s5) P) = view S (upto_inst c (block_insts F P))"
      using 1 2 3 4 by simp
  qed
  have vR: "\<And>S. \<forall>k\<in>S. iid k < n \<and> iid k \<noteq> c \<Longrightarrow>
      view S (block_insts (blocks s5) R) = view S (after_inst c (block_insts F P))"
  proof -
    fix S assume S: "\<forall>k\<in>S. iid k < n \<and> iid k \<noteq> c"
    then have S': "\<forall>k\<in>S. iid k < n" by simp
    have "ext (newk n) (after_inst c (block_insts F P)) (block_insts (blocks s2) R)"
      using ext_newk_trans[OF e1[of R] e2[of R]] RP by (simp add: bi1')
    then have 1: "view S (block_insts (blocks s2) R) = view S (after_inst c (block_insts F P))"
      using ext_view_newk S' by blast
    have "iid C = c" using find_inst_Some[OF C] by simp
    then have "skel C \<notin> S" using S by (metis skel_simps(1))
    then have "view S (takeWhile isPHI (block_insts (blocks s2) R) @ C # dropWhile isPHI (block_insts (blocks s2) R))
        = view S (block_insts (blocks s2) R)"
      by (rule view_insert_PHI)
    then have 2: "view S (block_insts F3 R) = view S (block_insts (blocks s2) R)"
      using RP bi3[of R] by (simp del: view_append)
    have 3: "view S (block_insts (blocks s4) R) = view S (block_insts F3 R)"
      using ext_view_newk[OF e4[of R] S'] .
    show "view S (block_insts (blocks s5) R) = view S (after_inst c (block_insts F P))"
      using 1 2 3 RP by (simp add: bi5)
  qed
  \<comment> \<open>where the call is\<close>
  have par5: "getParent (blocks s5) c = Some R"
  proof -
    have "C \<in> set (block_insts F3 R)" using bi3[of R] RP by simp
    moreover have "iid C = c" using find_inst_Some[OF C] by simp
    ultimately have "c \<in> iid ` set (block_insts F3 R)" by force
    then have "c \<in> iid ` set (block_insts (blocks s4) R)" using ext_newk_has_id[OF e4[of R] cn] by simp
    then have "c \<in> iid ` set (block_insts (blocks s5) R)" using RP by (simp add: bi5)
    moreover have "distinct (ids (blocks s5))" using iv5 by (simp add: ir_ok_def idinv_def)
    ultimately show ?thesis using block_getParent by blast
  qed
  have lastP: "block_insts (blocks s5) P \<noteq> []" "ikind (last (block_insts (blocks s5) P)) = Br cb"
    by (simp_all add: bi5)
  \<comment> \<open>who reads the call\<close>
  have q4: "\<forall>U \<in> set (all_insts (blocks s4)). uses c U \<longrightarrow> isStorek (ikind U)"
  proof (cases "users F3 c = []")
    case True
    then have "\<not> refd c F3" by (simp add: users_Nil_iff)
    then show ?thesis using True by (auto simp: s4_def bl3 refd_def)
  next
    case False
    have "c < next_id s3" using cn p2(2) n3 by simp
    then have "\<And>U. U \<in> set (all_insts (blocks (DemoteRegToStack c AIP s3))) \<Longrightarrow> uses c U \<Longrightarrow> isStorek (ikind U)"
      using DemoteRegToStack_complete[of s3 c _ AIP] False bl3 by simp
    then show ?thesis using False by (simp add: s4_def bl3)
  qed
  have q5: "\<forall>U \<in> set (all_insts (blocks s5)). uses c U \<longrightarrow> isStorek (ikind U)"
    using only_stores_umono[OF benignD(2)[OF b5] cn q4] .
  have stP: "\<exists>ys zs m. ext (newk n) (upto_inst c (block_insts F P) @ [Instr n [] (Br R)]) ys
           \<and> ext (newk n) (erase1 c ys) zs \<and> zs \<noteq> [] \<and> iid (last zs) = n \<and> n \<le> m
           \<and> block_insts (blocks s5) P = butlast zs @ [Instr m [] (Br cb)]"
    using eP2 e4[of P] ne4 il4 nn4 bi5[of P] bi3[of P] unfolding br_def
    by (intro exI[of _ "block_insts (blocks s2) P"] exI[of _ "block_insts (blocks s4) P"] exI[of _ "next_id s4"]) simp
  have stR: "\<exists>ys C. ext (newk n) (after_inst c (block_insts F P)) ys \<and> iid C = c
           \<and> ext (newk n) (takeWhile isPHI ys @ C # dropWhile isPHI ys) (block_insts (blocks s5) R)"
  proof -
    have "ext (newk n) (after_inst c (block_insts F P)) (block_insts (blocks s2) R)"
      using ext_newk_trans[OF e1[of R] e2[of R]] RP by (simp add: bi1')
    moreover have "iid C = c" using find_inst_Some[OF C] by simp
    moreover have "ext (newk n) (takeWhile isPHI (block_insts (blocks s2) R) @ C # dropWhile isPHI (block_insts (blocks s2) R))
        (block_insts (blocks s5) R)"
      using e4[of R] bi3[of R] bi5[of R] RP by simp
    ultimately show ?thesis by blast
  qed
  show ?thesis
    using res iv5 n5 a5 a1 bn oth vP vR par5 lastP q5 stP stR
    unfolding F_def[symmetric] n_def[symmetric] R_def[symmetric]
    by (intro exI[of _ s5]) (simp add: F_def n_def R_def)
qed

section \<open>The loop over the callers\<close>

lemma snd_splitBasicBlock [simp]: "snd (splitBasicBlock alloc P c s) = alloc (addrs (blocks s))"
  by (simp add: splitBasicBlock_def Let_def)

lemma rewriteCaller_maps:
  "rewriteCaller alloc E AIP cb c (s, m1, m2) =
     (case getParent (blocks s) c of
        None \<Rightarrow> (s, m1, m2)
      | Some P \<Rightarrow> (afterCaller alloc E AIP cb c s, map_set P (snd (splitBasicBlock alloc P c s)) m1, map_set c P m2))"
proof (cases "getParent (blocks s) c")
  case None
  then show ?thesis by (simp add: rewriteCaller_def)
next
  case (Some P)
  obtain s1 R where sp: "splitBasicBlock alloc P c s = (s1, R)" by (cases "splitBasicBlock alloc P c s") auto
  then have "R = alloc (addrs (blocks s))" using snd_splitBasicBlock[of alloc P c s] by simp
  then show ?thesis using Some sp
    unfolding afterCaller_def rewriteCaller_def by (simp add: Let_def)
qed

lemma afterCaller_None: "getParent (blocks s) c = None \<Longrightarrow> afterCaller alloc E AIP cb c s = s"
  by (simp add: afterCaller_def rewriteCaller_def)

lemma fold_rewriteCaller:
  "fold (rewriteCaller alloc E AIP cb) cs (s, m1, m2) =
     (afterCallers alloc E AIP cb cs s,
      fold (\<lambda>(c, P, R). map_set P R) (sites alloc E AIP cb cs s) m1,
      fold (\<lambda>(c, P, R). map_set c P) (sites alloc E AIP cb cs s) m2)"
proof (induction cs arbitrary: s m1 m2)
  case Nil
  then show ?case by (simp add: afterCallers_def)
next
  case (Cons c cs)
  show ?case
  proof (cases "getParent (blocks s) c")
    case None
    then show ?thesis using Cons[of s m1 m2]
      by (simp add: rewriteCaller_maps afterCallers_def afterCaller_None)
  next
    case (Some P)
    then show ?thesis
      using Cons[of "afterCaller alloc E AIP cb c s" "map_set P (alloc (addrs (blocks s))) m1" "map_set c P m2"]
      by (simp add: rewriteCaller_maps afterCallers_def)
  qed
qed

lemma rewriteCallers_eq:
  "rewriteCallers alloc E AIP cb cs s =
     (afterCallers alloc E AIP cb cs s,
      fold (\<lambda>(c, P, R). map_set P R) (sites alloc E AIP cb cs s) [],
      fold (\<lambda>(c, P, R). map_set c P) (sites alloc E AIP cb cs s) [])"
  by (simp add: rewriteCallers_def fold_rewriteCaller)


lemma filter_head_tail:
  assumes "distinct xs" "filter (\<lambda>i. i \<in> set (c # cs)) xs = c # cs"
  shows "c \<notin> set cs" "filter (\<lambda>i. i \<in> set cs) xs = cs" "c \<in> set xs" "set cs \<subseteq> set xs"
proof -
  have d: "distinct (c # cs)" using assms distinct_filter by metis
  then show c: "c \<notin> set cs" by simp
  have "filter (\<lambda>i. i \<in> set cs) xs = filter (\<lambda>i. i \<in> set cs) (filter (\<lambda>i. i \<in> set (c # cs)) xs)"
    by (simp add: conj_commute cong: conj_cong)
  also have "\<dots> = filter (\<lambda>i. i \<in> set cs) (c # cs)" using assms(2) by simp
  also have "\<dots> = cs" using c by simp
  finally show "filter (\<lambda>i. i \<in> set cs) xs = cs" .
  have "set (c # cs) \<subseteq> set xs" using assms(2) by (metis filter_is_subset)
  then show "c \<in> set xs" "set cs \<subseteq> set xs" by auto
qed

lemma filter_head_first:
  assumes "distinct xs" "filter (\<lambda>i. i \<in> set (c # cs)) xs = c # cs" "xs = A @ i # B" "c \<in> set B"
  shows "i \<notin> set cs"
proof
  assume i: "i \<in> set cs"
  have cA: "c \<notin> set A" "c \<noteq> i" using assms(1,3,4) by auto
  have "filter (\<lambda>i. i \<in> set (c # cs)) xs = filter (\<lambda>i. i \<in> set (c # cs)) A @ i # filter (\<lambda>i. i \<in> set (c # cs)) B"
    using assms(3) i by simp
  then have e: "filter (\<lambda>i. i \<in> set (c # cs)) A @ i # filter (\<lambda>i. i \<in> set (c # cs)) B = c # cs"
    using assms(2) by simp
  show False
  proof (cases "filter (\<lambda>i. i \<in> set (c # cs)) A")
    case Nil
    then show ?thesis using e cA(2) by simp
  next
    case (Cons a as)
    then have "a = c" using e by simp
    then have "c \<in> set (filter (\<lambda>i. i \<in> set (c # cs)) A)" using Cons by simp
    then show ?thesis using cA(1) by simp
  qed
qed

lemma before_in_block:
  "I \<in> set (takeWhile (\<lambda>I. iid I \<noteq> c) (block_insts F P)) \<Longrightarrow> c \<in> iid ` set (block_insts F P)
   \<Longrightarrow> \<exists>A B. ids F = A @ iid I # B \<and> c \<in> set B"
proof (induction F)
  case Nil
  then show ?case by simp
next
  case (Cons B F)
  show ?case
  proof (cases "baddr B = P")
    case True
    define es where "es = insts B"
    have I: "I \<in> set (takeWhile (\<lambda>I. iid I \<noteq> c) es)" and c: "c \<in> iid ` set es"
      using Cons.prems True by (auto simp: es_def)
    obtain t1 t2 where t: "takeWhile (\<lambda>I. iid I \<noteq> c) es = t1 @ I # t2" using I split_list by fastforce
    have "c \<in> iid ` set (dropWhile (\<lambda>I. iid I \<noteq> c) es)"
    proof -
      have "c \<notin> iid ` set (takeWhile (\<lambda>I. iid I \<noteq> c) es)" by (auto dest: set_takeWhileD)
      moreover have "set es = set (takeWhile (\<lambda>I. iid I \<noteq> c) es) \<union> set (dropWhile (\<lambda>I. iid I \<noteq> c) es)"
        by (metis set_append takeWhile_dropWhile_id)
      ultimately show ?thesis using c by auto
    qed
    moreover have "es = t1 @ I # t2 @ dropWhile (\<lambda>I. iid I \<noteq> c) es"
      using t by (metis append.assoc append_Cons takeWhile_dropWhile_id)
    then have "ids (B # F) = map iid t1 @ iid I # (map iid t2 @ map iid (dropWhile (\<lambda>I. iid I \<noteq> c) es) @ ids F)"
      unfolding ids_Cons es_def[symmetric] by (metis (no_types, lifting) append.assoc append_Cons list.simps(9) map_append)
    ultimately show ?thesis by (intro exI[of _ "map iid t1"] exI[of _ "map iid t2 @ map iid (dropWhile (\<lambda>I. iid I \<noteq> c) es) @ ids F"]) auto
  next
    case False
    then obtain A C where "ids F = A @ iid I # C" "c \<in> set C" using Cons by auto
    then show ?thesis by (intro exI[of _ "map iid (insts B) @ A"] exI[of _ C]) simp
  qed
qed

lemma upto_no_later:
  assumes "distinct (ids F)" "filter (\<lambda>i. i \<in> set (c # cs)) (ids F) = c # cs"
    "c \<in> iid ` set (block_insts F P)" "I \<in> set (upto_inst c (block_insts F P))"
  shows "iid I \<notin> set cs"
proof -
  have cn: "c \<notin> set cs" using filter_head_tail(1)[OF assms(1,2)] .
  from assms(4) consider (a) "I \<in> set (takeWhile (\<lambda>I. iid I \<noteq> c) (block_insts F P))"
    | (b) "I \<in> set (take 1 (dropWhile (\<lambda>I. iid I \<noteq> c) (block_insts F P)))"
    by (auto simp: upto_inst_def)
  then show ?thesis
  proof cases
    case a
    then obtain A B where "ids F = A @ iid I # B" "c \<in> set B" using before_in_block assms(3) by blast
    then show ?thesis using filter_head_first[OF assms(1,2)] by blast
  next
    case b
    then obtain d ds where d: "dropWhile (\<lambda>I. iid I \<noteq> c) (block_insts F P) = d # ds" "I = d"
      by (cases "dropWhile (\<lambda>I. iid I \<noteq> c) (block_insts F P)") auto
    then have "iid d = c" using hd_dropWhile[of "\<lambda>I. iid I \<noteq> c" "block_insts F P"] by auto
    then show ?thesis using cn d(2) by simp
  qed
qed

lemma view_ids: "map iid (view {k. iid k \<in> A} xs) = filter (\<lambda>i. i \<in> A) (map iid xs)"
  by (induction xs) (auto simp: view_Cons)

lemma benign_filter:
  assumes "benign lo A F G" "\<forall>i \<in> B. i < lo \<and> i \<notin> A"
  shows "filter (\<lambda>i. i \<in> B) (ids G) = filter (\<lambda>i. i \<in> B) (ids F)"
proof -
  have "view {k. iid k \<in> B} (all_insts G) = view {k. iid k \<in> B} (all_insts F)"
    by (rule benignD(1)[OF assms(1)]) (use assms(2) in auto)
  then have "map iid (view {k. iid k \<in> B} (all_insts G)) = map iid (view {k. iid k \<in> B} (all_insts F))"
    by simp
  then show ?thesis by (simp add: view_ids ids_def)
qed

lemma ext_newk_ids: "ext (newk lo) xs ys \<Longrightarrow> y \<in> set ys \<Longrightarrow> lo \<le> iid y \<or> iid y \<in> iid ` set xs"
proof -
  assume "ext (newk lo) xs ys" "y \<in> set ys"
  then have "newk lo y \<or> skel y \<in> skel ` set xs" by (rule ext_set_new)
  then show ?thesis
  proof
    assume "newk lo y"
    then show ?thesis by (simp add: newk_def)
  next
    assume "skel y \<in> skel ` set xs"
    then obtain x where "x \<in> set xs" "skel y = skel x" by auto
    then have "iid y = iid x" by (metis skel_simps(1))
    then show ?thesis using \<open>x \<in> set xs\<close> by auto
  qed
qed

lemma view_empty_ids: "view {k. iid k \<in> A} xs = [] \<Longrightarrow> I \<in> set xs \<Longrightarrow> iid I \<notin> A"
  by (induction xs) (auto simp: view_Cons split: if_splits)

lemma view_empty_iff: "view S xs = [] \<longleftrightarrow> (\<forall>x \<in> set xs. skel x \<notin> S)"
  by (induction xs) (auto simp: view_Cons)


lemma afterCaller_step:
  fixes E AIP cb :: nat
  assumes fa: "fresh_alloc alloc" and iv: "ir_ok s" and par: "getParent (blocks s) c = Some P"
  defines "R \<equiv> alloc (addrs (blocks s))" and "s' \<equiv> afterCaller alloc E AIP cb c s"
  shows "ir_ok s'" "next_id s < next_id s'"
    "addrs (blocks s') = addr_after P R (addrs (blocks s))"
    "benign (next_id s) {c} (blocks s) (blocks s')"
    "\<And>a. a \<noteq> P \<Longrightarrow> a \<noteq> R \<Longrightarrow> ext (newk (next_id s)) (block_insts (blocks s) a) (block_insts (blocks s') a)"
    "\<And>S. (\<forall>k\<in>S. iid k < next_id s \<and> iid k \<noteq> c) \<Longrightarrow>
           view S (block_insts (blocks s') P) = view S (upto_inst c (block_insts (blocks s) P))"
    "\<And>S. (\<forall>k\<in>S. iid k < next_id s \<and> iid k \<noteq> c) \<Longrightarrow>
           view S (block_insts (blocks s') R) = view S (after_inst c (block_insts (blocks s) P))"
    "getParent (blocks s') c = Some R"
    "block_insts (blocks s') P \<noteq> []" "ikind (last (block_insts (blocks s') P)) = Br cb"
    "\<forall>U \<in> set (all_insts (blocks s')). uses c U \<longrightarrow> isStorek (ikind U)"
proof -
  obtain t where t: "rewriteCaller alloc E AIP cb c (s, [], []) = (t, map_set P R [], map_set c P [])"
    and p: "ir_ok t" "next_id s < next_id t"
     "addrs (blocks t) = addr_after P R (addrs (blocks s))"
     "benign (next_id s) {c} (blocks s) (blocks t)"
     "\<forall>a. a \<noteq> P \<and> a \<noteq> R \<longrightarrow> ext (newk (next_id s)) (block_insts (blocks s) a) (block_insts (blocks t) a)"
     "\<forall>S. (\<forall>k\<in>S. iid k < next_id s \<and> iid k \<noteq> c) \<longrightarrow>
           view S (block_insts (blocks t) P) = view S (upto_inst c (block_insts (blocks s) P))"
     "\<forall>S. (\<forall>k\<in>S. iid k < next_id s \<and> iid k \<noteq> c) \<longrightarrow>
           view S (block_insts (blocks t) R) = view S (after_inst c (block_insts (blocks s) P))"
     "getParent (blocks t) c = Some R"
     "block_insts (blocks t) P \<noteq> []" "ikind (last (block_insts (blocks t) P)) = Br cb"
     "\<forall>U \<in> set (all_insts (blocks t)). uses c U \<longrightarrow> isStorek (ikind U)"
    using rewriteCaller_step[OF fa iv par, of E AIP cb "[]" "[]"] unfolding R_def by blast
  have e: "s' = t" by (simp add: s'_def afterCaller_def t)
  show "ir_ok s'" "next_id s < next_id s'"
    "addrs (blocks s') = addr_after P R (addrs (blocks s))"
    "benign (next_id s) {c} (blocks s) (blocks s')"
    "getParent (blocks s') c = Some R"
    "block_insts (blocks s') P \<noteq> []" "ikind (last (block_insts (blocks s') P)) = Br cb"
    "\<forall>U \<in> set (all_insts (blocks s')). uses c U \<longrightarrow> isStorek (ikind U)"
    using p unfolding e by blast+
  show "\<And>a. a \<noteq> P \<Longrightarrow> a \<noteq> R \<Longrightarrow> ext (newk (next_id s)) (block_insts (blocks s) a) (block_insts (blocks s') a)"
    using p(5) unfolding e by blast
  show "\<And>S. (\<forall>k\<in>S. iid k < next_id s \<and> iid k \<noteq> c) \<Longrightarrow>
           view S (block_insts (blocks s') P) = view S (upto_inst c (block_insts (blocks s) P))"
    using p(6) unfolding e by blast
  show "\<And>S. (\<forall>k\<in>S. iid k < next_id s \<and> iid k \<noteq> c) \<Longrightarrow>
           view S (block_insts (blocks s') R) = view S (after_inst c (block_insts (blocks s) P))"
    using p(7) unfolding e by blast
qed


lemma skel_Br: "skel x = skel y \<Longrightarrow> ikind x = Br b \<Longrightarrow> ikind y = Br b"
  by (cases x; cases y; cases "ikind y") (auto simp: skel_def)

lemma ext_last_Br:
  assumes "ext N xs ys" "xs \<noteq> []" "ikind (last xs) = Br b"
  shows "ys \<noteq> [] \<and> ikind (last ys) = Br b"
proof -
  have "skel (last ys) = skel (last xs)" using ext_last[OF assms(1,2)] .
  then have "ikind (last ys) = Br b" using skel_Br[of "last xs" "last ys" b] assms(3) by simp
  moreover have "ys \<noteq> []" using ext_Nil_iff[OF assms(1)] assms(2) by simp
  ultimately show ?thesis by simp
qed

lemma loop_pre_step:
  fixes E AIP cb :: nat
  assumes fa: "fresh_alloc alloc" and pre: "loop_pre lo A cb Ps (c # cs) s"
  shows "\<exists>P. getParent (blocks s) c = Some P \<and> P \<notin> Ps \<and> P \<noteq> cb
     \<and> alloc (addrs (blocks s)) \<noteq> cb \<and> alloc (addrs (blocks s)) \<notin> set (addrs (blocks s))
     \<and> loop_pre lo A cb (insert P Ps) cs (afterCaller alloc E AIP cb c s)"
proof -
  define R where "R = alloc (addrs (blocks s))"
  define s' where "s' = afterCaller alloc E AIP cb c s"
  have iv: "ir_ok s" and cbin: "cb \<in> set (addrs (blocks s))" and cbe: "block_insts (blocks s) cb = []"
    and fl: "filter (\<lambda>i. i \<in> set (c # cs)) (ids (blocks s)) = c # cs"
    and Ps: "Ps \<subseteq> set (addrs (blocks s))"
    and PsI: "\<And>P I. P \<in> Ps \<Longrightarrow> I \<in> set (block_insts (blocks s) P) \<Longrightarrow> iid I \<notin> set (c # cs)"
    and PsB: "\<And>P. P \<in> Ps \<Longrightarrow> block_insts (blocks s) P \<noteq> [] \<and> ikind (last (block_insts (blocks s) P)) = Br cb"
    and lo: "lo \<le> next_id s" and A: "set (c # cs) \<subseteq> A" and clo: "\<forall>c \<in> set (c # cs). c < lo"
    using pre unfolding loop_pre_def by blast+
  have da: "distinct (addrs (blocks s))" and di: "distinct (ids (blocks s))"
    and lt: "\<And>i. i \<in> set (ids (blocks s)) \<Longrightarrow> i < next_id s"
    using iv by (auto simp: ir_ok_def idinv_def)
  note ft = filter_head_tail[OF di fl]
  from ft(3) obtain P where par: "getParent (blocks s) c = Some P"
    using getParent_None_iff[of "blocks s" c] by (cases "getParent (blocks s) c") auto
  have cP: "c \<in> iid ` set (block_insts (blocks s) P)" using getParent_block[OF da par] .
  have PnPs: "P \<notin> Ps" using PsI cP by fastforce
  have Pcb: "P \<noteq> cb" using cP cbe by auto
  have Pin: "P \<in> set (addrs (blocks s))" using getParent_Some_in[OF par] by simp
  have Rn: "R \<notin> set (addrs (blocks s))" using fa by (simp add: fresh_alloc_def R_def)
  have Rcb: "R \<noteq> cb" using Rn cbin by auto
  note st = afterCaller_step[where E = E and AIP = AIP and cb = cb, OF fa iv par, folded R_def s'_def]
  have ad: "set (addrs (blocks s')) = insert R (set (addrs (blocks s)))"
    using st(3) set_addr_after[OF Pin] by simp
  have fl': "filter (\<lambda>i. i \<in> set cs) (ids (blocks s')) = cs"
  proof -
    have "filter (\<lambda>i. i \<in> set cs) (ids (blocks s')) = filter (\<lambda>i. i \<in> set cs) (ids (blocks s))"
    proof (rule benign_filter[OF st(4)])
      show "\<forall>i\<in>set cs. i < next_id s \<and> i \<notin> {c}" using ft(1,4) lt by auto
    qed
    then show ?thesis using ft(2) by simp
  qed
  have old: "\<And>a I. a \<noteq> P \<Longrightarrow> a \<noteq> R \<Longrightarrow> I \<in> set (block_insts (blocks s') a) \<Longrightarrow>
      next_id s \<le> iid I \<or> iid I \<in> iid ` set (block_insts (blocks s) a)"
    using ext_newk_ids[OF st(5)] by blast
  have PsI': "\<forall>I \<in> set (block_insts (blocks s') Q). iid I \<notin> set cs" if Q: "Q \<in> insert P Ps" for Q
  proof (cases "Q = P")
    case True
    have "view {k. iid k \<in> set cs} (block_insts (blocks s') P)
        = view {k. iid k \<in> set cs} (upto_inst c (block_insts (blocks s) P))"
      by (rule st(6)) (use ft(1,4) lt in auto)
    moreover have "view {k. iid k \<in> set cs} (upto_inst c (block_insts (blocks s) P)) = []"
      unfolding view_empty_iff using upto_no_later[OF di fl cP] by (simp add: skel_def)
    ultimately have "view {k. iid k \<in> set cs} (block_insts (blocks s') P) = []" by simp
    then show ?thesis using True view_empty_ids by blast
  next
    case False
    then have Q': "Q \<in> Ps" using Q by simp
    then have "Q \<noteq> R" using Ps Rn by auto
    show ?thesis
    proof
      fix I assume I: "I \<in> set (block_insts (blocks s') Q)"
      from old[OF False \<open>Q \<noteq> R\<close> I] show "iid I \<notin> set cs"
      proof
        assume "next_id s \<le> iid I"
        then show ?thesis using ft(4) lt by fastforce
      next
        assume "iid I \<in> iid ` set (block_insts (blocks s) Q)"
        then show ?thesis using PsI[OF Q'] by auto
      qed
    qed
  qed
  have PsB': "block_insts (blocks s') Q \<noteq> [] \<and> ikind (last (block_insts (blocks s') Q)) = Br cb"
    if Q: "Q \<in> insert P Ps" for Q
  proof (cases "Q = P")
    case True
    then show ?thesis using st(9,10) by simp
  next
    case False
    then have Q': "Q \<in> Ps" using Q by simp
    then have "Q \<noteq> R" using Ps Rn by auto
    show ?thesis using ext_last_Br[OF st(5)[OF False \<open>Q \<noteq> R\<close>]] PsB[OF Q'] by simp
  qed
  have cbe': "block_insts (blocks s') cb = []"
    using st(5)[of cb] Pcb Rcb cbe by simp
  have "loop_pre lo A cb (insert P Ps) cs s'"
    unfolding loop_pre_def
  proof (intro conjI)
    show "ir_ok s'" by (rule st(1))
    show "cb \<in> set (addrs (blocks s'))" using ad cbin by simp
    show "block_insts (blocks s') cb = []" by (rule cbe')
    show "filter (\<lambda>i. i \<in> set cs) (ids (blocks s')) = cs" by (rule fl')
    show "insert P Ps \<subseteq> set (addrs (blocks s'))" using ad Pin Ps by auto
    show "\<forall>P\<in>insert P Ps. (\<forall>I\<in>set (block_insts (blocks s') P). iid I \<notin> set cs) \<and>
        block_insts (blocks s') P \<noteq> [] \<and> ikind (last (block_insts (blocks s') P)) = Br cb"
      using PsI' PsB' by blast
    show "lo \<le> next_id s'" using lo st(2) by simp
    show "set cs \<subseteq> A" using A by simp
    show "\<forall>c\<in>set cs. c < lo" using clo by simp
  qed
  then show ?thesis using par PnPs Pcb Rcb Rn unfolding R_def s'_def by blast
qed


lemma afterCallers_Nil [simp]: "afterCallers alloc E AIP cb [] s = s"
  by (simp add: afterCallers_def)

lemma afterCallers_Cons [simp]:
  "afterCallers alloc E AIP cb (c # cs) s = afterCallers alloc E AIP cb cs (afterCaller alloc E AIP cb c s)"
  by (simp add: afterCallers_def)

lemma loop_pre_weaken: "loop_pre lo A cb Ps cs s \<Longrightarrow> loop_pre lo A cb Ps [] s"
  by (auto simp: loop_pre_def)

lemma afterCallers_props:
  fixes E AIP cb :: nat
  assumes fa: "fresh_alloc alloc"
  shows "loop_pre lo A cb Ps cs s \<Longrightarrow>
     loop_pre lo A cb (Ps \<union> (fst \<circ> snd) ` set (sites alloc E AIP cb cs s)) [] (afterCallers alloc E AIP cb cs s)
     \<and> next_id s \<le> next_id (afterCallers alloc E AIP cb cs s)
     \<and> benign lo A (blocks s) (blocks (afterCallers alloc E AIP cb cs s))
     \<and> map fst (sites alloc E AIP cb cs s) = cs
     \<and> distinct (map (fst \<circ> snd) (sites alloc E AIP cb cs s))
     \<and> (fst \<circ> snd) ` set (sites alloc E AIP cb cs s) \<inter> Ps = {}
     \<and> cb \<notin> (fst \<circ> snd) ` set (sites alloc E AIP cb cs s)
     \<and> cb \<notin> (snd \<circ> snd) ` set (sites alloc E AIP cb cs s)
     \<and> hd (addrs (blocks (afterCallers alloc E AIP cb cs s))) = hd (addrs (blocks s))
     \<and> set (addrs (blocks s)) \<subseteq> set (addrs (blocks (afterCallers alloc E AIP cb cs s)))
     \<and> (\<forall>a \<in> set (addrs (blocks s)). a \<notin> (fst \<circ> snd) ` set (sites alloc E AIP cb cs s) \<longrightarrow>
           ext (newk lo) (block_insts (blocks s) a) (block_insts (blocks (afterCallers alloc E AIP cb cs s)) a))
     \<and> (\<forall>c \<in> set cs. \<forall>U \<in> set (all_insts (blocks (afterCallers alloc E AIP cb cs s))).
           uses c U \<longrightarrow> isStorek (ikind U))"
proof (induction cs arbitrary: s Ps)
  case Nil
  have "\<And>a. ext (newk lo) (block_insts (blocks s) a) (block_insts (blocks s) a)" by (rule ext_refl)
  then show ?case using Nil by (simp add: benign_refl)
next
  case (Cons c cs)
  define R where "R = alloc (addrs (blocks s))"
  define s1 where "s1 = afterCaller alloc E AIP cb c s"
  define sts where "sts = sites alloc E AIP cb cs s1"
  define s' where "s' = afterCallers alloc E AIP cb cs s1"
  obtain P where par: "getParent (blocks s) c = Some P" and PnPs: "P \<notin> Ps" and Pcb: "P \<noteq> cb"
    and Rcb: "R \<noteq> cb" and Rn: "R \<notin> set (addrs (blocks s))"
    and pre1: "loop_pre lo A cb (insert P Ps) cs s1"
    using loop_pre_step[OF fa Cons.prems, of E AIP] unfolding R_def s1_def by blast
  have iv: "ir_ok s" and lo: "lo \<le> next_id s" and A: "set (c # cs) \<subseteq> A" and clo: "c < lo"
    and cbin: "cb \<in> set (addrs (blocks s))"
    using Cons.prems unfolding loop_pre_def by auto
  note st = afterCaller_step[where E = E and AIP = AIP and cb = cb, OF fa iv par, folded R_def s1_def]
  note ih0 = Cons.IH[OF pre1, folded sts_def s'_def]
  have i1: "loop_pre lo A cb (insert P Ps \<union> (fst \<circ> snd) ` set sts) [] s'"
    and i2: "next_id s1 \<le> next_id s'"
    and b2: "benign lo A (blocks s1) (blocks s')"
    and i4: "map fst sts = cs"
    and i5: "distinct (map (fst \<circ> snd) sts)"
    and i6: "(fst \<circ> snd) ` set sts \<inter> insert P Ps = {}"
    and i7: "cb \<notin> (fst \<circ> snd) ` set sts"
    and i8: "cb \<notin> (snd \<circ> snd) ` set sts"
    and i9: "hd (addrs (blocks s')) = hd (addrs (blocks s1))"
    and i10: "set (addrs (blocks s1)) \<subseteq> set (addrs (blocks s'))"
    and i11: "\<forall>a \<in> set (addrs (blocks s1)). a \<notin> (fst \<circ> snd) ` set sts \<longrightarrow>
           ext (newk lo) (block_insts (blocks s1) a) (block_insts (blocks s') a)"
    and i12: "\<forall>c \<in> set cs. \<forall>U \<in> set (all_insts (blocks s')). uses c U \<longrightarrow> isStorek (ikind U)"
    using ih0 by blast+
  have Pin: "P \<in> set (addrs (blocks s))" using getParent_Some_in[OF par] by simp
  have ad: "set (addrs (blocks s1)) = insert R (set (addrs (blocks s)))"
    using st(3) set_addr_after[OF Pin] by simp
  have sites_eq: "sites alloc E AIP cb (c # cs) s = (c, P, R) # sts"
    using par by (simp add: sts_def s1_def R_def)
  have after_eq: "afterCallers alloc E AIP cb (c # cs) s = s'"
    by (simp add: s'_def s1_def)
  have b1: "benign lo A (blocks s) (blocks s1)"
    using benign_mono[OF st(4) lo] A by simp
  have PnS: "P \<notin> (fst \<circ> snd) ` set sts" using i6 by blast
  have c1: "loop_pre lo A cb (Ps \<union> (fst \<circ> snd) ` set ((c, P, R) # sts)) [] s'"
  proof -
    have "insert P Ps \<union> (fst \<circ> snd) ` set sts = Ps \<union> (fst \<circ> snd) ` set ((c, P, R) # sts)" by auto
    then show ?thesis using i1 by simp
  qed
  have c2: "next_id s \<le> next_id s'" using st(2) i2 by linarith
  have c3: "benign lo A (blocks s) (blocks s')" using benign_trans[OF b1 b2] .
  have c4: "map fst ((c, P, R) # sts) = c # cs" using i4 by simp
  have c5: "distinct (map (fst \<circ> snd) ((c, P, R) # sts))" using i5 PnS by simp
  have c6: "(fst \<circ> snd) ` set ((c, P, R) # sts) \<inter> Ps = {}" using i6 PnPs by auto
  have c7: "cb \<notin> (fst \<circ> snd) ` set ((c, P, R) # sts)" using i7 Pcb by auto
  have c8: "cb \<notin> (snd \<circ> snd) ` set ((c, P, R) # sts)" using i8 Rcb by auto
  have c9: "hd (addrs (blocks s')) = hd (addrs (blocks s))"
  proof -
    have "addrs (blocks s) \<noteq> []" using cbin by auto
    then have "hd (addrs (blocks s1)) = hd (addrs (blocks s))" using st(3) hd_addr_after by simp
    then show ?thesis using i9 by simp
  qed
  have c10: "set (addrs (blocks s)) \<subseteq> set (addrs (blocks s'))" using i10 ad by auto
  have c11: "\<forall>a \<in> set (addrs (blocks s)). a \<notin> (fst \<circ> snd) ` set ((c, P, R) # sts) \<longrightarrow>
           ext (newk lo) (block_insts (blocks s) a) (block_insts (blocks s') a)"
  proof (intro ballI impI)
    fix a assume a: "a \<in> set (addrs (blocks s))" "a \<notin> (fst \<circ> snd) ` set ((c, P, R) # sts)"
    then have aP: "a \<noteq> P" and aR: "a \<noteq> R" and aS: "a \<notin> (fst \<circ> snd) ` set sts" using Rn by auto
    have e1: "ext (newk lo) (block_insts (blocks s) a) (block_insts (blocks s1) a)"
      using ext_newk_mono[OF st(5)[OF aP aR] lo] .
    have "a \<in> set (addrs (blocks s1))" using a(1) ad by simp
    then have e2: "ext (newk lo) (block_insts (blocks s1) a) (block_insts (blocks s') a)"
      using i11 aS by blast
    show "ext (newk lo) (block_insts (blocks s) a) (block_insts (blocks s') a)"
      using ext_trans[OF newk_skel e2 e1] .
  qed
  have c12: "\<forall>d \<in> set (c # cs). \<forall>U \<in> set (all_insts (blocks s')). uses d U \<longrightarrow> isStorek (ikind U)"
  proof
    fix d assume d: "d \<in> set (c # cs)"
    show "\<forall>U \<in> set (all_insts (blocks s')). uses d U \<longrightarrow> isStorek (ikind U)"
    proof (cases "d = c")
      case True
      show ?thesis unfolding True
        by (rule only_stores_umono[OF benignD(2)[OF b2] clo st(11)])
    next
      case False
      then have "d \<in> set cs" using d by simp
      then show ?thesis using i12 by blast
    qed
  qed
  show ?case unfolding sites_eq after_eq
    using c1 c2 c3 c4 c5 c6 c7 c8 c9 c10 c11 c12 by blast
qed

section \<open>The maps\<close>

lemma map_of_map_set: "map_of (map_set k v m) = (map_of m)(k \<mapsto> v)"
  by (induction m) (auto simp: fun_upd_twist)

lemma keys_map_set: "fst ` set (map_set k v m) = insert k (fst ` set m)"
  by (induction m) (force split: if_splits)+

lemma sorted_map_set:
  "sorted_wrt (<) (map fst m) \<Longrightarrow> sorted_wrt (<) (map fst (map_set k v m))"
proof (induction m)
  case Nil
  then show ?case by simp
next
  case (Cons a m)
  obtain k' v' where a: "a = (k', v')" by (cases a)
  have "\<forall>x \<in> fst ` set (map_set k v m). k' < x" if "k' < k"
    using Cons.prems that keys_map_set[of k v m] by (auto simp: a)
  then show ?case using Cons by (auto simp: a)
qed

lemma set_map_set_new: "k \<notin> fst ` set m \<Longrightarrow> set (map_set k v m) = insert (k, v) (set m)"
  by (induction m) (force split: if_splits)+

lemma fold_map_set:
  "sorted_wrt (<) (map fst m) \<Longrightarrow> distinct (map fst ps) \<Longrightarrow> fst ` set ps \<inter> fst ` set m = {} \<Longrightarrow>
   sorted_wrt (<) (map fst (fold (\<lambda>(k, v). map_set k v) ps m))
   \<and> set (fold (\<lambda>(k, v). map_set k v) ps m) = set m \<union> set ps"
proof (induction ps arbitrary: m)
  case Nil
  then show ?case by simp
next
  case (Cons p ps)
  obtain k v where p: "p = (k, v)" by (cases p)
  have k: "k \<notin> fst ` set m" using Cons.prems(3) by (auto simp: p)
  have s: "sorted_wrt (<) (map fst (map_set k v m))" using sorted_map_set[OF Cons.prems(1)] .
  have d: "distinct (map fst ps)" using Cons.prems(2) by simp
  have i: "fst ` set ps \<inter> fst ` set (map_set k v m) = {}"
    using Cons.prems(2,3) by (auto simp: keys_map_set p)
  show ?case using Cons.IH[OF s d i] set_map_set_new[OF k] by (auto simp: p)
qed

lemma sorted_lt_distinct: "sorted_wrt (<) (xs :: nat list) \<Longrightarrow> distinct xs"
  by (induction xs) auto

lemma sorted_lt_unique:
  "sorted_wrt (<) (xs :: nat list) \<Longrightarrow> sorted_wrt (<) ys \<Longrightarrow> set xs = set ys \<Longrightarrow> xs = ys"
  by (metis sorted_lt_distinct sorted_distinct_set_unique strict_sorted_iff)

lemma map_get_set:
  "distinct (map fst m) \<Longrightarrow> (k, v) \<in> set m \<Longrightarrow> map_get m k = v"
  by (simp add: map_get_def)

section \<open>The loop over the map of continuation blocks\<close>

lemma route_loop_eq:
  "route_loop m n inc cs =
     (inc @ map (\<lambda>i. (VConstI32 (word_of_int (n + int i)), fst (m ! i))) [0..<length m],
      cs @ map (\<lambda>i. (word_of_int (n + int i), snd (m ! i))) [0..<length m])"
proof (induction m arbitrary: n inc cs)
  case Nil
  then show ?case by simp
next
  case (Cons a m)
  obtain p r where a: "a = (p, r)" by (cases a)
  have u: "[0..<Suc (length m)] = 0 # map Suc [0..<length m]"
    by (simp add: upt_conv_Cons map_Suc_upt del: upt_Suc)
  show ?case
    unfolding a route_loop.simps Cons.IH length_Cons u
    by (simp add: comp_def add.assoc add.commute del: upt_Suc)
qed

lemma tags_distinct:
  assumes "i < j" "j < 2 ^ 32"
  shows "(word_of_int (int i) :: 32 word) \<noteq> word_of_int (int j)"
proof
  assume "(word_of_int (int i) :: 32 word) = word_of_int (int j)"
  then have "(word_of_nat i :: 32 word) = word_of_nat j" by simp
  then have "take_bit 32 i = take_bit 32 j" by (simp add: word_of_nat_eq_iff)
  moreover have "take_bit 32 i = i" "take_bit 32 j = j" using assms by (simp_all add: take_bit_nat_eq_self)
  ultimately show False using assms by simp
qed

section \<open>The collecting loop\<close>

lemma map_of_map_push:
  "sorted_wrt (<) (map fst m) \<Longrightarrow> map_of (map_push k v m) = (map_of m)(k \<mapsto> glookup m k @ [v])"
proof (induction m)
  case Nil
  then show ?case by (simp add: glookup_def)
next
  case (Cons a m)
  obtain k' v' where a: "a = (k', v')" by (cases a)
  have "sorted_wrt (<) (map fst m)" using Cons.prems by simp
  then have ih: "map_of (map_push k v m) = (map_of m)(k \<mapsto> glookup m k @ [v])"
    by (rule Cons.IH)
  show ?case
  proof (cases "k = k'")
    case True
    then show ?thesis by (auto simp: a glookup_def fun_eq_iff)
  next
    case False
    show ?thesis
    proof (cases "k < k'")
      case True
      have "k \<notin> fst ` set m" using Cons.prems True by (auto simp: a)
      then have "map_of m k = None" by (simp add: map_of_eq_None_iff)
      then show ?thesis using True False by (auto simp: a glookup_def fun_eq_iff)
    next
      case n: False
      then show ?thesis using False ih by (auto simp: a glookup_def fun_eq_iff)
    qed
  qed
qed

lemma keys_map_push: "fst ` set (map_push k v m) = insert k (fst ` set m)"
  by (induction m) (force split: if_splits)+

lemma sorted_map_push:
  "sorted_wrt (<) (map fst m) \<Longrightarrow> sorted_wrt (<) (map fst (map_push k v m))"
proof (induction m)
  case Nil
  then show ?case by simp
next
  case (Cons a m)
  obtain k' v' where a: "a = (k', v')" by (cases a)
  have "\<forall>x \<in> fst ` set (map_push k v m). k' < x" if "k' < k"
    using Cons.prems that keys_map_push[of k v m] by (auto simp: a)
  then show ?case using Cons by (auto simp: a)
qed

lemma nonempty_map_push:
  "\<forall>p \<in> set m. snd p \<noteq> [] \<Longrightarrow> \<forall>p \<in> set (map_push k v m). snd p \<noteq> []"
  by (induction m) (force split: if_splits)+

lemma glookup_map_push:
  "sorted_wrt (<) (map fst m) \<Longrightarrow>
   glookup (map_push k v m) t = (if t = k then glookup m k @ [v] else glookup m t)"
  by (simp add: glookup_def map_of_map_push)

lemma collect_insts_props:
  "sorted_wrt (<) (map fst m) \<Longrightarrow> \<forall>p \<in> set m. snd p \<noteq> [] \<Longrightarrow>
   sorted_wrt (<) (map fst (collect_insts M es m))
   \<and> (\<forall>p \<in> set (collect_insts M es m). snd p \<noteq> [])
   \<and> (\<forall>t. glookup (collect_insts M es m) t =
          glookup m t @ (if isIntrinsic (M t) then [] else map iid (filter (isCallTo t) es)))"
proof (induction es arbitrary: m)
  case Nil
  then show ?case by simp
next
  case (Cons I es)
  show ?case
  proof (cases "\<exists>f args. ikind I = Call (Direct f) args \<and> \<not> isIntrinsic (M f)")
    case True
    then obtain f args where f: "ikind I = Call (Direct f) args" "\<not> isIntrinsic (M f)" by blast
    have e: "collect_insts M (I # es) m = collect_insts M es (map_push f (iid I) m)"
      using f by simp
    have t: "\<And>t. isCallTo t I \<longleftrightarrow> t = f" using f by (auto simp: isCallTo_def)
    show ?thesis unfolding e
      using Cons.IH[OF sorted_map_push[OF Cons.prems(1)] nonempty_map_push[OF Cons.prems(2)], of f "iid I"]
      using f(2) by (auto simp: glookup_map_push[OF Cons.prems(1)] t)
  next
    case False
    then have e: "collect_insts M (I # es) m = collect_insts M es m"
      by (auto split: kind.splits callee.splits)
    have t: "\<And>t. \<not> isIntrinsic (M t) \<Longrightarrow> \<not> isCallTo t I"
      using False by (auto simp: isCallTo_def split: kind.splits)
    show ?thesis unfolding e using Cons.IH[OF Cons.prems] t by auto
  qed
qed

lemma collect_blocks_props:
  "sorted_wrt (<) (map fst m) \<Longrightarrow> \<forall>p \<in> set m. snd p \<noteq> [] \<Longrightarrow>
   sorted_wrt (<) (map fst (collect_blocks M F m))
   \<and> (\<forall>p \<in> set (collect_blocks M F m). snd p \<noteq> [])
   \<and> (\<forall>t. glookup (collect_blocks M F m) t =
          glookup m t @ (if isIntrinsic (M t) then [] else callids t F))"
proof (induction F arbitrary: m)
  case Nil
  then show ?case by (simp add: callids_def all_insts_def)
next
  case (Cons B F)
  note c = collect_insts_props[OF Cons.prems, of M "insts B"]
  have s: "sorted_wrt (<) (map fst (collect_insts M (insts B) m))" using c by blast
  have n: "\<forall>p \<in> set (collect_insts M (insts B) m). snd p \<noteq> []" using c by blast
  have g: "\<And>t. glookup (collect_insts M (insts B) m) t =
          glookup m t @ (if isIntrinsic (M t) then [] else map iid (filter (isCallTo t) (insts B)))"
    using c by blast
  show ?case using Cons.IH[OF s n] by (simp add: g callids_def all_insts_Cons)
qed

lemma collect_props:
  shows "sorted_wrt (<) (map fst (collect M F))"
    and "distinct (map fst (collect M F))"
    and "(t, cs) \<in> set (collect M F) \<Longrightarrow> cs = callids t F \<and> cs \<noteq> [] \<and> \<not> isIntrinsic (M t)"
    and "\<not> isIntrinsic (M t) \<Longrightarrow> callids t F \<noteq> [] \<Longrightarrow> (t, callids t F) \<in> set (collect M F)"
proof -
  note c = collect_blocks_props[of "[]" M F, simplified, folded collect_def]
  show s: "sorted_wrt (<) (map fst (collect M F))" using c by blast
  show d: "distinct (map fst (collect M F))" using s by (rule sorted_lt_distinct)
  have g: "\<And>t. glookup (collect M F) t = (if isIntrinsic (M t) then [] else callids t F)"
    using c by (simp add: glookup_def)
  have n: "\<forall>p \<in> set (collect M F). snd p \<noteq> []" using c by blast
  {
    assume a: "(t, cs) \<in> set (collect M F)"
    then have "map_of (collect M F) t = Some cs" using d by simp
    then have "glookup (collect M F) t = cs" by (simp add: glookup_def)
    moreover have "cs \<noteq> []" using n a by auto
    ultimately show "cs = callids t F \<and> cs \<noteq> [] \<and> \<not> isIntrinsic (M t)" using g[of t] by (auto split: if_splits)
  }
  {
    assume a: "\<not> isIntrinsic (M t)" "callids t F \<noteq> []"
    then have "glookup (collect M F) t = callids t F" using g by simp
    then obtain vs where "map_of (collect M F) t = Some vs" "vs = callids t F"
      using a(2) by (auto simp: glookup_def split: option.splits)
    then show "(t, callids t F) \<in> set (collect M F)" using map_of_SomeD by fastforce
  }
qed

section \<open>The argument PHI nodes and the call\<close>

lemma at_block_at_block: "at_block a f (at_block a g F) = at_block a (\<lambda>es. f (g es)) F"
  by (induction F) (auto simp: map_insts_def)

lemma find_app: "find P (xs @ ys) = (case find P xs of None \<Rightarrow> find P ys | Some x \<Rightarrow> Some x)"
  by (induction xs) auto

lemma at_block_id [simp]: "at_block a (\<lambda>es. es) F = F"
  by (induction F) (auto simp: map_insts_def)

lemma find_inst_append_block:
  "\<forall>I \<in> set new. iid I \<noteq> c \<Longrightarrow> find_inst (at_block a (\<lambda>es. es @ new) F) c = find_inst F c"
proof (induction F)
  case Nil
  then show ?case by simp
next
  case (Cons B F)
  have n: "find (\<lambda>I. iid I = c) new = None" using Cons.prems by (auto simp: find_None_iff)
  show ?case
  proof (cases "baddr B = a")
    case True
    then show ?thesis
      by (simp add: find_inst_def all_insts_Cons map_insts_def find_app n split: option.splits)
  next
    case False
    then show ?thesis using Cons by (simp add: find_inst_def all_insts_Cons find_app split: option.splits)
  qed
qed

lemma getArgOperand_append_block:
  "\<forall>I \<in> set new. iid I \<noteq> c \<Longrightarrow> getArgOperand (at_block a (\<lambda>es. es @ new) F) c i = getArgOperand F c i"
  by (simp add: getArgOperand_def find_inst_append_block)

lemma argPHI_append_block:
  "\<forall>I \<in> set new. \<forall>c \<in> set callers. iid I \<noteq> c \<Longrightarrow>
   argPHI callers cOP (at_block a (\<lambda>es. es @ new) F) i = argPHI callers cOP F i"
  by (simp add: argPHI_def getArgOperand_append_block cong: map_cong)

lemma fold_addArgPHI:
  assumes "\<forall>c \<in> set callers. c < next_id s"
  shows "fold (addArgPHI callers cOP cb) [0..<k] (s, []) =
     (\<lparr>blocks = at_block cb (\<lambda>es. es @ map (\<lambda>i. Instr (next_id s + i) [] (argPHI callers cOP (blocks s) i)) [0..<k]) (blocks s),
       next_id = next_id s + k\<rparr>,
      map (\<lambda>i. VInst (next_id s + i)) [0..<k])"
proof (induction k)
  case 0
  show ?case by simp
next
  case (Suc k)
  define new where "new = map (\<lambda>i. Instr (next_id s + i) [] (argPHI callers cOP (blocks s) i)) [0..<k]"
  have n: "\<forall>I \<in> set new. \<forall>c \<in> set callers. iid I \<noteq> c" using assms by (auto simp: new_def)
  show ?case
    using Suc argPHI_append_block[OF n, of cOP cb "blocks s" k]
    by (simp add: addArgPHI_def append_inst_def at_block_at_block new_def)
qed

lemma emitCall_buildArgs:
  assumes "\<forall>c \<in> set callers. c < next_id s"
  shows "emitCall t cb (buildArgs n callers cOP cb s) =
     \<lparr>blocks = at_block cb (\<lambda>es. es @ map (\<lambda>i. Instr (next_id s + i) [] (argPHI callers cOP (blocks s) i)) [0..<n]
                     @ [Instr (next_id s + n) [] (Call (Direct t) (map (\<lambda>i. VInst (next_id s + i)) [0..<n]))]) (blocks s),
       next_id = Suc (next_id s + n)\<rparr>"
    and "next_id (fst (buildArgs n callers cOP cb s)) = next_id s + n"
proof -
  have b: "buildArgs n callers cOP cb s = fold (addArgPHI callers cOP cb) [0..<n] (s, [])"
    by (simp add: buildArgs_def)
  show "emitCall t cb (buildArgs n callers cOP cb s) =
     \<lparr>blocks = at_block cb (\<lambda>es. es @ map (\<lambda>i. Instr (next_id s + i) [] (argPHI callers cOP (blocks s) i)) [0..<n]
                     @ [Instr (next_id s + n) [] (Call (Direct t) (map (\<lambda>i. VInst (next_id s + i)) [0..<n]))]) (blocks s),
       next_id = Suc (next_id s + n)\<rparr>"
    unfolding b fold_addArgPHI[OF assms] by (simp add: emitCall_def append_inst_def at_block_at_block)
  show "next_id (fst (buildArgs n callers cOP cb s)) = next_id s + n"
    unfolding b fold_addArgPHI[OF assms] by simp
qed


section \<open>Replacing and erasing the original calls\<close>

lemma replaceUsesOfWith_id: "\<not> uses c U \<Longrightarrow> replaceUsesOfWith (VInst c) new U = U"
proof -
  assume n: "\<not> uses c U"
  have m: "\<And>vs. VInst c \<notin> set vs \<Longrightarrow> map (subst (VInst c) new) vs = vs"
  proof -
    fix vs show "VInst c \<notin> set vs \<Longrightarrow> map (subst (VInst c) new) vs = vs"
      by (induction vs) (auto simp: subst_def)
  qed
  have "map_operands (subst (VInst c) new) (ikind U) = ikind U"
  proof (cases "ikind U")
    case (Call cl args)
    then show ?thesis using n m[of args]
      by (cases cl) (auto simp: uses_def subst_def)
  next
    case (PHI inc)
    have "VInst c \<notin> fst ` set inc" using n PHI by (simp add: uses_def)
    then have "map (\<lambda>(v, b). (subst (VInst c) new v, b)) inc = inc"
      by (induction inc) (auto simp: subst_def)
    then show ?thesis using PHI by (simp add: case_prod_unfold)
  qed (use n m in \<open>auto simp: uses_def subst_def\<close>)
  then show ?thesis by (cases U) (simp add: replaceUsesOfWith_def)
qed

lemma erase1_id: "c \<notin> iid ` set xs \<Longrightarrow> erase1 c xs = xs"
  by (induction xs) auto

lemma eraseFromParent_None: "c \<notin> set (ids F) \<Longrightarrow> eraseFromParent c F = F"
  unfolding eraseFromParent_def by (induction F) (auto simp: has_inst_def)

lemma block_insts_eraseFromParent_other:
  assumes "distinct (addrs F)" "c \<notin> iid ` set (block_insts F a)"
  shows "block_insts (eraseFromParent c F) a = block_insts F a"
proof (cases "getParent F c")
  case None
  then show ?thesis using getParent_None_iff[of F c] by (simp add: eraseFromParent_None)
next
  case (Some P)
  show ?thesis using block_insts_eraseFromParent[OF assms(1) Some, of a] assms(2) erase1_id[of c "block_insts F a"] by auto
qed

lemma block_insts_replaceAllUsesWith:
  "block_insts (replaceAllUsesWith c n F) a = map (replaceUsesOfWith (VInst c) (VInst n)) (block_insts F a)"
  unfolding replaceAllUsesWith_def by (rule block_insts_map) simp

lemma addrs_replaceAllUsesWith [simp]: "addrs (replaceAllUsesWith c n F) = addrs F"
  by (simp add: replaceAllUsesWith_def addrs_def map_insts_def comp_def)

lemma all_insts_eraseFromParent_sub: "set (all_insts (eraseFromParent c F)) \<subseteq> set (all_insts F)"
  unfolding eraseFromParent_def
  by (induction F) (auto simp: map_insts_def dest: subsetD[OF erase1_subset])

lemma gone_eraseFromParent: "distinct (ids F) \<Longrightarrow> c \<notin> set (ids (eraseFromParent c F))"
proof (cases "c \<in> set (ids F)")
  case True
  assume d: "distinct (ids F)"
  have "mset (ids (eraseFromParent c F)) + {#c#} = mset (ids F)" using mset_ids_eraseFromParent[OF True] .
  then have "count (mset (ids (eraseFromParent c F))) c + 1 = count (mset (ids F)) c"
    by (metis count_add_mset add_mset_add_single Suc_eq_plus1)
  moreover have "count (mset (ids F)) c \<le> 1" using d by (simp add: distinct_count_atmost_1)
  ultimately have "count (mset (ids (eraseFromParent c F))) c = 0" by linarith
  then show ?thesis by (simp add: count_eq_zero_iff)
next
  case False
  then show ?thesis by (simp add: eraseFromParent_None)
qed

lemma mset_ids_eraseFromParent_sub: "mset (ids (eraseFromParent c F)) \<subseteq># mset (ids F)"
  unfolding eraseFromParent_def
  using ids_at_inst[of "erase1 c" "{#}" c F] mset_ids_erase1 by simp

lemma distinct_mset_sub: "mset xs \<subseteq># mset ys \<Longrightarrow> distinct ys \<Longrightarrow> distinct xs"
proof (rule count_le_1_distinct)
  fix a assume s: "mset xs \<subseteq># mset ys" and d: "distinct ys"
  have "count (mset xs) a \<le> count (mset ys) a" using s by (rule mset_subset_eq_count)
  moreover have "count (mset ys) a \<le> 1" using d by (simp add: distinct_count_atmost_1)
  ultimately show "count (mset xs) a \<le> 1" by linarith
qed

lemma replaceCallers_props:
  assumes ci: "ci \<notin> set callers"
  shows "distinct (addrs F) \<Longrightarrow> distinct (ids F) \<Longrightarrow>
     \<forall>I \<in> set (block_insts F cb). iid I \<notin> set callers \<and> (\<forall>c \<in> set callers. \<not> uses c I) \<Longrightarrow>
     addrs (replaceCallers callers ci F) = addrs F
     \<and> block_insts (replaceCallers callers ci F) cb = block_insts F cb
     \<and> mset (ids (replaceCallers callers ci F)) \<subseteq># mset (ids F)
     \<and> set (ids (replaceCallers callers ci F)) \<inter> set callers = {}
     \<and> (\<forall>S. (\<forall>k \<in> S. iid k \<notin> set callers) \<longrightarrow>
           view S (all_insts (replaceCallers callers ci F)) = view S (all_insts F))
     \<and> (\<forall>c \<in> set callers. \<not> refd c (replaceCallers callers ci F))
     \<and> (\<forall>j. j \<noteq> ci \<and> refd j (replaceCallers callers ci F) \<longrightarrow> refd j F)"
  using ci
proof (induction callers arbitrary: F)
  case Nil
  then show ?case by (simp add: replaceCallers_def)
next
  case (Cons c cs)
  define F1 where "F1 = replaceAllUsesWith c ci F"
  define G where "G = eraseFromParent c F1"
  have cci: "c \<noteq> ci" and ci': "ci \<notin> set cs" using Cons.prems(4) by auto
  have e: "replaceCallers (c # cs) ci F = replaceCallers cs ci G"
    by (simp add: replaceCallers_def G_def F1_def)
  have da1: "distinct (addrs F1)" using Cons.prems(1) by (simp add: F1_def)
  have da: "distinct (addrs G)" using da1 by (simp add: G_def)
  have ms: "mset (ids G) \<subseteq># mset (ids F)"
    using mset_ids_eraseFromParent_sub[of c F1] by (simp add: G_def F1_def)
  have di1: "distinct (ids F1)" using Cons.prems(2) by (simp add: F1_def)
  have di: "distinct (ids G)"
    using ms Cons.prems(2) by (rule distinct_mset_sub)
  have b1: "block_insts F1 cb = block_insts F cb"
  proof -
    have "map (replaceUsesOfWith (VInst c) (VInst ci)) (block_insts F cb) = block_insts F cb"
      using Cons.prems(3) by (intro map_idI replaceUsesOfWith_id) auto
    then show ?thesis by (simp add: F1_def block_insts_replaceAllUsesWith)
  qed
  have b: "block_insts G cb = block_insts F cb"
  proof -
    have "c \<notin> iid ` set (block_insts F1 cb)" using Cons.prems(3) b1 by auto
    then show ?thesis using block_insts_eraseFromParent_other[OF da1] b1 by (simp add: G_def)
  qed
  have nb: "\<forall>I \<in> set (block_insts G cb). iid I \<notin> set cs \<and> (\<forall>c \<in> set cs. \<not> uses c I)"
    using Cons.prems(3) b by simp
  have gone: "c \<notin> set (ids G)" using gone_eraseFromParent[OF di1] by (simp add: G_def)
  have sub: "set (all_insts G) \<subseteq> set (all_insts F1)" using all_insts_eraseFromParent_sub by (simp add: G_def)
  have all1: "all_insts F1 = map (replaceUsesOfWith (VInst c) (VInst ci)) (all_insts F)"
    by (simp add: F1_def replaceAllUsesWith_def all_insts_map)
  have nr: "\<not> refd c G"
    using sub not_uses_replaceUsesOfWith[OF cci] unfolding refd_def all1 by auto
  have rm: "refd j F" if "j \<noteq> ci" "refd j G" for j
    using that sub uses_replaceUsesOfWith_rev[of j c ci] unfolding refd_def all1 by auto
  have vw: "view S (all_insts G) = view S (all_insts F)" if "\<forall>k \<in> S. iid k \<noteq> c" for S
  proof -
    have "view S (all_insts F1) = view S (all_insts F)"
      unfolding F1_def using bext_replaceAllUsesWith[of "\<lambda>n. False"] bext_view by blast
    then show ?thesis using view_eraseFromParent[OF that, of F1] by (simp add: G_def)
  qed
  note ih = Cons.IH[OF da di nb ci']
  have i1: "addrs (replaceCallers cs ci G) = addrs G"
    and i2: "block_insts (replaceCallers cs ci G) cb = block_insts G cb"
    and i3: "mset (ids (replaceCallers cs ci G)) \<subseteq># mset (ids G)"
    and i4: "set (ids (replaceCallers cs ci G)) \<inter> set cs = {}"
    and i5: "\<forall>S. (\<forall>k \<in> S. iid k \<notin> set cs) \<longrightarrow> view S (all_insts (replaceCallers cs ci G)) = view S (all_insts G)"
    and i6: "\<forall>c \<in> set cs. \<not> refd c (replaceCallers cs ci G)"
    and i7: "\<forall>j. j \<noteq> ci \<and> refd j (replaceCallers cs ci G) \<longrightarrow> refd j G"
    using ih by blast+
  have c1: "addrs (replaceCallers cs ci G) = addrs F" using i1 by (simp add: G_def F1_def)
  have c2: "block_insts (replaceCallers cs ci G) cb = block_insts F cb" using i2 b by simp
  have c3: "mset (ids (replaceCallers cs ci G)) \<subseteq># mset (ids F)" using i3 ms by (rule subset_mset.order_trans)
  have c4: "set (ids (replaceCallers cs ci G)) \<inter> set (c # cs) = {}"
    using i4 gone set_mset_mono[OF i3] by auto
  have c5: "\<forall>S. (\<forall>k \<in> S. iid k \<notin> set (c # cs)) \<longrightarrow> view S (all_insts (replaceCallers cs ci G)) = view S (all_insts F)"
  proof (intro allI impI)
    fix S assume S: "\<forall>k \<in> S. iid k \<notin> set (c # cs)"
    then have "view S (all_insts (replaceCallers cs ci G)) = view S (all_insts G)" using i5 by auto
    moreover have "view S (all_insts G) = view S (all_insts F)" using S by (intro vw) auto
    ultimately show "view S (all_insts (replaceCallers cs ci G)) = view S (all_insts F)" by simp
  qed
  have c6: "\<forall>d \<in> set (c # cs). \<not> refd d (replaceCallers cs ci G)"
    using i6 i7 nr cci by auto
  have c7: "\<forall>j. j \<noteq> ci \<and> refd j (replaceCallers cs ci G) \<longrightarrow> refd j F"
    using i7 rm by blast
  show ?case unfolding e using c1 c2 c3 c4 c5 c6 c7 by blast
qed


section \<open>The shared block\<close>

lemma ins_before_at:
  "x \<notin> iid ` set xs \<Longrightarrow> iid I = x \<Longrightarrow> ins_before x new (xs @ I # ys) = xs @ new # I # ys"
  by (induction xs) auto

lemma all_insts_at_block_sub2:
  "set (all_insts (at_block a f F)) \<subseteq> set (f (block_insts F a)) \<union> set (all_insts F)"
  by (induction F) auto

lemma idgrow_range:
  assumes "mset (ids G) \<subseteq># mset (ids F) + mset xs" "distinct xs" "set xs \<subseteq> {n ..< n'}"
  shows "idgrow n n' F G"
  unfolding idgrow_def
proof
  fix a
  have "count (mset (ids G)) a \<le> count (mset (ids F) + mset xs) a"
    using assms(1) by (rule mset_subset_eq_count)
  moreover have "count (mset xs) a \<le> (if n \<le> a \<and> a < n' then 1 else 0)"
  proof (cases "a \<in> set xs")
    case True
    then have "count (mset xs) a \<le> 1" using assms(2) by (simp add: distinct_count_atmost_1)
    then show ?thesis using True assms(3) by auto
  next
    case False
    then show ?thesis by (simp add: notin_count)
  qed
  ultimately show "count (mset (ids G)) a \<le> count (mset (ids F)) a + (if n \<le> a \<and> a < n' then 1 else 0)"
    by simp
qed

lemma uses_getArgOperand:
  assumes "getArgOperand F c i = VInst j"
  shows "\<exists>C \<in> set (all_insts F). iid C = c \<and> isCallk (ikind C) \<and> uses j C"
proof -
  from assms obtain C where C: "find_inst F c = Some C"
    by (auto simp: getArgOperand_def split: option.splits)
  then obtain cl args where k: "ikind C = Call cl args" and i: "i < length args" "args ! i = VInst j"
    using assms by (auto simp: getArgOperand_def split: kind.splits if_splits)
  have "VInst j \<in> set args" using i by (metis nth_mem)
  then have "uses j C" using k by (simp add: uses_def)
  then show ?thesis using find_inst_Some[OF C] k by auto
qed

lemma isStorek_Call: "isCallk k \<Longrightarrow> \<not> isStorek k"
  by (cases k) auto


lemma mergeGroup_finish:
  "mergeGroup alloc M t callers s =
     (case rewritten alloc callers s of (s3, cTR, cOP) \<Rightarrow>
        finishGroup M t callers (newCallBlock alloc s) cTR cOP s3)"
  by (simp add: mergeGroup_def finishGroup_def Let_def split: prod.splits)

lemma map_plus_upt: "map ((+) a) [0..<n] = [a ..< a + (n::nat)]"
  by (induction n) auto

lemma finishGroup_props:
  fixes cb t :: nat and M :: "nat \<Rightarrow> func_info" and cTR cOP :: "(nat \<times> nat) list"
  assumes ok3: "ir_ok s3" and cbin: "cb \<in> set (addrs (blocks s3))"
    and cbe: "block_insts (blocks s3) cb = []"
    and lt: "\<forall>c \<in> set callers. c < next_id s3"
    and st: "\<forall>c \<in> set callers. \<forall>U \<in> set (all_insts (blocks s3)). uses c U \<longrightarrow> isStorek (ikind U)"
  defines "n3 \<equiv> next_id s3" and "n \<equiv> arg_size (M t)"
  defines "shared \<equiv> argPHIs n3 n callers cOP (blocks s3) @ [whereFrom n3 n cTR, newCall n3 n t, switchBack n3 n cTR]"
  defines "s' \<equiv> finishGroup M t callers cb cTR cOP s3"
  shows "block_insts (blocks s') cb = shared"
    and "ir_ok s'" and "next_id s' = n3 + n + 3"
    and "addrs (blocks s') = addrs (blocks s3)"
    and "\<And>S. (\<forall>k \<in> S. iid k < n3 \<and> iid k \<notin> set callers) \<Longrightarrow>
           view S (all_insts (blocks s')) = view S (all_insts (blocks s3))"
    and "set (ids (blocks s')) \<subseteq> (set (ids (blocks s3)) - set callers) \<union> {n3 ..}"
    and "\<forall>c \<in> set callers. \<not> refd c (blocks s')"
    and "\<forall>j < n3. refd j (blocks s') \<longrightarrow> refd j (blocks s3)"
    and "\<forall>K \<in> set (all_insts (blocks s')). n3 \<le> iid K \<longrightarrow> K \<in> set shared"
proof -
  define F3 where "F3 = blocks s3"
  define PHIs where "PHIs = argPHIs n3 n callers cOP F3"
  define call where "call = newCall n3 n t"
  define wf where "wf = whereFrom n3 n cTR"
  define sw where "sw = switchBack n3 n cTR"
  define ci where "ci = n3 + n"
  define new where "new = PHIs @ [call]"
  define G5 where "G5 = at_block cb (\<lambda>es. es @ new) F3"
  define F6 where "F6 = replaceCallers callers ci G5"
  define G7 where "G7 = at_block cb (\<lambda>es. ins_before ci wf es @ [sw]) F6"
  have sh: "shared = PHIs @ [wf, call, sw]"
    by (simp add: shared_def PHIs_def wf_def call_def sw_def F3_def)
  have da3: "distinct (addrs F3)" and di3: "distinct (ids F3)"
    and lt3: "\<And>i. i \<in> set (ids F3) \<Longrightarrow> i < n3"
    using ok3 by (auto simp: ir_ok_def idinv_def F3_def n3_def)
  have lt': "\<forall>c \<in> set callers. c < n3" using lt by (simp add: n3_def)
  have idP: "map iid PHIs = [n3 ..< n3 + n]"
    by (simp add: PHIs_def argPHIs_def comp_def map_plus_upt)
  have idnew: "map iid new = [n3 ..< Suc (n3 + n)]"
    by (simp add: new_def idP call_def newCall_def)
  have icall: "iid call = ci" by (simp add: call_def newCall_def ci_def)
  have iwf: "iid wf = Suc ci" by (simp add: wf_def whereFrom_def ci_def)
  have isw: "iid sw = Suc (Suc ci)" by (simp add: sw_def switchBack_def ci_def)
  \<comment> \<open>the argument PHI nodes and the call\<close>
  have s5: "emitCall t cb (buildArgs n callers cOP cb s3) = \<lparr>blocks = G5, next_id = Suc ci\<rparr>"
    and nx: "next_id (fst (buildArgs n callers cOP cb s3)) = ci"
    using emitCall_buildArgs(1)[OF lt, where t = t and cb = cb and n = n and cOP = cOP]
      emitCall_buildArgs(2)[OF lt, where cb = cb and n = n and cOP = cOP]
    by (simp_all add: G5_def new_def PHIs_def argPHIs_def call_def newCall_def n3_def F3_def ci_def)
  have da5: "distinct (addrs G5)" and ad5: "addrs G5 = addrs F3" using da3 by (simp_all add: G5_def)
  have b5: "block_insts G5 cb = new"
    using block_insts_at_block[OF da3, of cb _ cb] cbin cbe by (simp add: G5_def F3_def)
  have ms5: "mset (ids G5) \<subseteq># mset (ids F3) + mset (map iid new)"
    unfolding G5_def by (rule ids_at_block) simp
  have g5: "idgrow n3 (Suc ci) F3 G5"
    using ms5 by (rule idgrow_range) (simp_all add: idnew ci_def)
  have iv5: "idinv (Suc ci) G5"
    using idgrow_idinv[OF g5] ok3 by (simp add: ir_ok_def F3_def n3_def ci_def)
  have di5: "distinct (ids G5)" using iv5 by (simp add: idinv_def)
  have all5: "set (all_insts G5) \<subseteq> set new \<union> set (all_insts F3)"
    using all_insts_at_block_sub2[of cb "\<lambda>es. es @ new" F3] cbe by (simp add: G5_def F3_def)
  have nouse: "\<not> uses c I" if c: "c \<in> set callers" and I: "I \<in> set new" for c I
  proof
    assume u: "uses c I"
    from I consider (phi) "I \<in> set PHIs" | (call) "I = call" by (auto simp: new_def)
    then show False
    proof cases
      case phi
      then obtain i where "ikind I = argPHI callers cOP F3 i" by (auto simp: PHIs_def argPHIs_def)
      with u obtain c' where "getArgOperand F3 c' i = VInst c"
        by (auto simp: uses_def argPHI_def comp_def)
      then obtain C where "C \<in> set (all_insts F3)" "isCallk (ikind C)" "uses c C"
        using uses_getArgOperand by blast
      then show False using st c isStorek_Call by (auto simp: F3_def)
    next
      case call
      then have "c \<ge> n3" using u by (auto simp: uses_def call_def newCall_def)
      then show False using lt' c by auto
    qed
  qed
  have pre6: "\<forall>I \<in> set (block_insts G5 cb). iid I \<notin> set callers \<and> (\<forall>c \<in> set callers. \<not> uses c I)"
  proof
    fix I assume I: "I \<in> set (block_insts G5 cb)"
    then have In: "I \<in> set new" by (simp add: b5)
    then have "iid I \<in> set (map iid new)" by simp
    then have "n3 \<le> iid I" by (auto simp: idnew)
    then have "iid I \<notin> set callers" using lt' by auto
    then show "iid I \<notin> set callers \<and> (\<forall>c \<in> set callers. \<not> uses c I)" using nouse In by blast
  qed
  have cin: "ci \<notin> set callers" using lt' by (auto simp: ci_def)
  \<comment> \<open>the original calls are replaced and erased\<close>
  note r = replaceCallers_props[OF cin da5 di5 pre6, folded F6_def]
  have ad6: "addrs F6 = addrs F3" and b6: "block_insts F6 cb = new"
    and ms6: "mset (ids F6) \<subseteq># mset (ids G5)"
    and gone6: "set (ids F6) \<inter> set callers = {}"
    and vw6: "\<And>S. (\<forall>k \<in> S. iid k \<notin> set callers) \<Longrightarrow> view S (all_insts F6) = view S (all_insts G5)"
    and nr6: "\<forall>c \<in> set callers. \<not> refd c F6"
    and rm6: "\<And>j. j \<noteq> ci \<Longrightarrow> refd j F6 \<Longrightarrow> refd j G5"
    using r ad5 b5 by auto
  have da6: "distinct (addrs F6)" using ad6 da3 by simp
  have di6: "distinct (ids F6)" using ms6 di5 by (rule distinct_mset_sub)
  \<comment> \<open>the way back\<close>
  have par: "getParent F6 ci = Some cb"
    by (rule block_getParent[OF di6]) (simp add: b6 new_def icall)
  have e7: "append_inst cb sw (insertBefore ci wf F6) = G7"
    by (simp add: insertBefore_def at_inst_getParent[OF da6] par append_inst_def at_block_at_block G7_def)
  have res: "s' = \<lparr>blocks = G7, next_id = Suc (Suc (Suc ci))\<rparr>"
    unfolding s'_def finishGroup_def Let_def n_def[symmetric] nx s5
    by (simp add: routeBack_def Let_def e7[symmetric] wf_def sw_def whereFrom_def switchBack_def ci_def F6_def
        split: prod.splits)
  have cb6: "cb \<in> set (addrs F6)" using ad6 cbin by (simp add: F3_def)
  have b7: "block_insts G7 cb = PHIs @ [wf, call, sw]"
  proof -
    have "ci \<notin> iid ` set PHIs"
    proof -
      have "iid ` set PHIs = set (map iid PHIs)" by simp
      then show ?thesis unfolding idP by (simp add: ci_def)
    qed
    then have "ins_before ci wf (PHIs @ call # []) = PHIs @ wf # call # []"
      using icall by (rule ins_before_at)
    then show ?thesis
      using block_insts_at_block[OF da6, of cb _ cb] cb6 by (simp add: G7_def b6 new_def)
  qed
  show "block_insts (blocks s') cb = shared" using b7 by (simp add: res sh)
  have ms7: "mset (ids G7) \<subseteq># mset (ids F6) + {#Suc ci, Suc (Suc ci)#}"
    unfolding G7_def
  proof (rule ids_at_block)
    fix xs
    have "mset (map iid (ins_before ci wf xs)) \<subseteq># mset (map iid xs) + {#iid wf#}"
      by (rule mset_ids_ins_before)
    then show "mset (map iid (ins_before ci wf xs @ [sw])) \<subseteq># mset (map iid xs) + {#Suc ci, Suc (Suc ci)#}"
      by (simp add: iwf isw)
  qed
  have "mset (ids G7) \<subseteq># mset (ids F3) + mset ([n3 ..< Suc ci] @ [Suc ci, Suc (Suc ci)])"
  proof -
    have "mset (ids F6) \<subseteq># mset (ids F3) + mset (map iid new)"
      using ms6 ms5 by (rule subset_mset.order_trans)
    then have "mset (ids F6) + {#Suc ci, Suc (Suc ci)#} \<subseteq># mset (ids F3) + mset (map iid new) + {#Suc ci, Suc (Suc ci)#}"
      by (simp del: mset_map)
    then have "mset (ids G7) \<subseteq># mset (ids F3) + mset (map iid new) + {#Suc ci, Suc (Suc ci)#}"
      using ms7 by (rule subset_mset.order_trans[rotated])
    then show ?thesis unfolding idnew ci_def by (simp add: ac_simps del: mset_upt)
  qed
  then have g7: "idgrow n3 (Suc (Suc (Suc ci))) F3 G7"
    by (rule idgrow_range) (auto simp: ci_def)
  have ad7: "addrs G7 = addrs F3" using ad6 by (simp add: G7_def)
  show "ir_ok s'"
    by (rule ir_ok_update[OF ok3]) (use g7 ad7 da3 in \<open>simp_all add: res F3_def n3_def ci_def\<close>)
  show "next_id s' = n3 + n + 3" by (simp add: res ci_def)
  show "addrs (blocks s') = addrs (blocks s3)" using ad7 by (simp add: res F3_def)
  show "view S (all_insts (blocks s')) = view S (all_insts (blocks s3))"
    if S: "\<forall>k \<in> S. iid k < n3 \<and> iid k \<notin> set callers" for S
  proof -
    have out: "skel I \<notin> S" if "n3 \<le> iid I" for I
    proof
      assume "skel I \<in> S"
      then have "iid (skel I) < n3" using S by blast
      then show False using that by simp
    qed
    have v5: "view S (all_insts G5) = view S (all_insts F3)"
      unfolding G5_def
    proof (rule view_at_block)
      have "\<forall>I \<in> set new. skel I \<notin> S"
      proof
        fix I assume "I \<in> set new"
        then have "iid I \<in> set (map iid new)" by simp
        then have "n3 \<le> iid I" by (auto simp: idnew)
        then show "skel I \<notin> S" by (rule out)
      qed
      then have "view S new = []" by (simp add: view_empty_iff)
      then show "view S (block_insts F3 cb @ new) = view S (block_insts F3 cb)" by simp
    qed
    have v6: "view S (all_insts F6) = view S (all_insts G5)" using S by (intro vw6) auto
    have v7: "view S (all_insts G7) = view S (all_insts F6)"
      unfolding G7_def
    proof (rule view_at_block)
      have w: "skel wf \<notin> S" "skel sw \<notin> S" using out[of wf] out[of sw] by (simp_all add: iwf isw ci_def)
      have "view S (ins_before ci wf (block_insts F6 cb)) = view S (block_insts F6 cb)"
        by (rule ext_view[OF ext_ins_before[of "\<lambda>I. I = wf"]]) (use w in auto)
      then show "view S (ins_before ci wf (block_insts F6 cb) @ [sw]) = view S (block_insts F6 cb)"
        using w by (simp add: view_Cons)
    qed
    show ?thesis using v5 v6 v7 by (simp add: res F3_def)
  qed
  have all7: "set (all_insts G7) \<subseteq> set (PHIs @ [wf, call, sw]) \<union> set (all_insts F6)"
    using all_insts_at_block_sub2[of cb "\<lambda>es. ins_before ci wf es @ [sw]" F6] b7
      block_insts_at_block[OF da6, of cb "\<lambda>es. ins_before ci wf es @ [sw]" cb] cb6
    by (auto simp: G7_def)
  have ids7: "set (ids G7) \<subseteq> set (ids F6) \<union> {n3 ..}"
    using set_mset_mono[OF ms7] by (auto simp: ci_def)
  have ids6: "set (ids F6) \<subseteq> (set (ids F3) - set callers) \<union> {n3 ..}"
    using set_mset_mono[OF ms6] set_mset_mono[OF ms5] gone6 by (auto simp: idnew)
  show "set (ids (blocks s')) \<subseteq> (set (ids (blocks s3)) - set callers) \<union> {n3 ..}"
    using ids7 ids6 by (auto simp: res F3_def)
  have nouse7: "\<not> uses j I" if "j < n3" "I = wf \<or> I = sw" for j I
    using that by (auto simp: uses_def wf_def sw_def whereFrom_def switchBack_def route_loop_eq)
  have r7: "refd j F6" if j: "j < n3" and r: "refd j G7" for j
  proof -
    from r obtain U where U: "U \<in> set (all_insts G7)" "uses j U" by (auto simp: refd_def)
    then have "U \<in> set (PHIs @ [wf, call, sw]) \<or> U \<in> set (all_insts F6)" using all7 by auto
    then show ?thesis
    proof
      assume "U \<in> set (PHIs @ [wf, call, sw])"
      then have "U \<in> set new \<or> U = wf \<or> U = sw" by (auto simp: new_def)
      then have "U \<in> set new" using nouse7[OF j] U(2) by blast
      then have "U \<in> set (block_insts F6 cb)" by (simp add: b6)
      then have "U \<in> set (all_insts F6)" using block_ids_subset by blast
      then show ?thesis using U(2) by (auto simp: refd_def)
    qed (use U(2) in \<open>auto simp: refd_def\<close>)
  qed
  show "\<forall>c \<in> set callers. \<not> refd c (blocks s')"
    using nr6 r7 lt' by (auto simp: res)
  show "\<forall>j < n3. refd j (blocks s') \<longrightarrow> refd j (blocks s3)"
  proof (intro allI impI)
    fix j assume j: "j < n3" and "refd j (blocks s')"
    then have "refd j F6" using r7 by (simp add: res)
    then have "refd j G5" using rm6 j by (simp add: ci_def)
    then obtain U where U: "U \<in> set (all_insts G5)" "uses j U" by (auto simp: refd_def)
    then have "U \<in> set new \<or> U \<in> set (all_insts F3)" using all5 by auto
    then show "refd j (blocks s3)"
    proof
      assume "U \<in> set new"
      then consider (phi) "U \<in> set PHIs" | (call) "U = call" by (auto simp: new_def)
      then show ?thesis
      proof cases
        case phi
        then obtain i where "ikind U = argPHI callers cOP F3 i" by (auto simp: PHIs_def argPHIs_def)
        with U(2) obtain c' where "getArgOperand F3 c' i = VInst j"
          by (auto simp: uses_def argPHI_def comp_def)
        then show ?thesis using uses_getArgOperand by (fastforce simp: refd_def F3_def)
      next
        case call
        then have "j \<ge> n3" using U(2) by (auto simp: uses_def call_def newCall_def)
        then show ?thesis using j by simp
      qed
    qed (use U(2) in \<open>auto simp: refd_def F3_def\<close>)
  qed
  show "\<forall>K \<in> set (all_insts (blocks s')). n3 \<le> iid K \<longrightarrow> K \<in> set shared"
  proof (intro ballI impI)
    fix K assume K: "K \<in> set (all_insts (blocks s'))" "n3 \<le> iid K"
    then have "K \<in> set (PHIs @ [wf, call, sw]) \<or> K \<in> set (all_insts F6)" using all7 by (auto simp: res)
    then show "K \<in> set shared"
    proof
      assume "K \<in> set (all_insts F6)"
      then have "iid K \<in> set (ids F6)" by (auto simp: ids_def)
      then have "iid K \<in> set (ids F3) \<or> iid K \<in> set (map iid new)"
        using set_mset_mono[OF ms6] set_mset_mono[OF ms5] by auto
      then have "iid K \<in> set (map iid new)" using lt3 K(2) by fastforce
      then obtain I where I: "I \<in> set new" "iid I = iid K" by auto
      then have "I \<in> set (all_insts F6)" using block_ids_subset[of F6 cb] by (auto simp: b6)
      then have "I = K"
        using distinct_ids_eq[of "all_insts F6" I K] di6 \<open>K \<in> set (all_insts F6)\<close> I(2) by (simp add: ids_def)
      then show ?thesis using I(1) by (auto simp: sh new_def)
    qed (simp add: sh)
  qed
qed

section \<open>One group\<close>

lemma block_insts_append:
  "block_insts (F @ G) a = (if a \<in> set (addrs F) then block_insts F a else block_insts G a)"
  by (induction F) auto

lemma all_insts_append [simp]: "all_insts (F @ G) = all_insts F @ all_insts G"
  by (simp add: all_insts_def)

lemma group_loop_pre:
  assumes fa: "fresh_alloc alloc" and iv: "ir_ok s"
    and fl: "filter (\<lambda>i. i \<in> set callers) (ids (blocks s)) = callers" and ne: "callers \<noteq> []"
  defines "cb \<equiv> newCallBlock alloc s"
  defines "s2 \<equiv> insertAllocaPoint (withCallBlock alloc s)"
  defines "E \<equiv> hd (addrs (blocks s))"
  shows "loop_pre (Suc (next_id s)) (set callers) cb {} callers s2"
    and "next_id s2 = Suc (next_id s)" and "next_id (withCallBlock alloc s) = next_id s"
    and "baddr (hd (blocks (withCallBlock alloc s))) = E"
    and "cb \<notin> set (addrs (blocks s))" and "blocks s \<noteq> []"
    and "addrs (blocks s2) = addrs (blocks s) @ [cb]"
    and "\<And>S. (\<forall>k \<in> S. iid k < next_id s) \<Longrightarrow> view S (all_insts (blocks s2)) = view S (all_insts (blocks s))"
    and "set (all_insts (blocks s2)) = insert (allocaPoint (next_id s)) (set (all_insts (blocks s)))"
    and "block_insts (blocks s2) E =
           takeWhile isAlloca (block_insts (blocks s) E) @ allocaPoint (next_id s) # dropWhile isAlloca (block_insts (blocks s) E)"
    and "\<And>a. a \<noteq> E \<Longrightarrow> block_insts (blocks s2) a = block_insts (blocks s) a"
proof -
  define AP where "AP = allocaPoint (next_id s)"
  define f where "f = (\<lambda>es. takeWhile isAlloca es @ AP # dropWhile isAlloca es)"
  have da: "distinct (addrs (blocks s))" and di: "distinct (ids (blocks s))"
    and lt: "\<And>i. i \<in> set (ids (blocks s)) \<Longrightarrow> i < next_id s"
    using iv by (auto simp: ir_ok_def idinv_def)
  have sub: "set callers \<subseteq> set (ids (blocks s))" using fl by (metis filter_is_subset)
  then have "ids (blocks s) \<noteq> []" using ne by auto
  then show ne': "blocks s \<noteq> []" by auto
  then obtain B rest where Br: "blocks s = B # rest" by (cases "blocks s") auto
  show cbn: "cb \<notin> set (addrs (blocks s))" using fa by (simp add: cb_def newCallBlock_def fresh_alloc_def)
  have s2: "s2 = \<lparr>blocks = map_insts f B # rest @ [Block cb []], next_id = Suc (next_id s)\<rparr>"
    by (simp add: s2_def insertAllocaPoint_def withCallBlock_def Br cb_def f_def AP_def)
  show "next_id s2 = Suc (next_id s)" by (simp add: s2)
  show "next_id (withCallBlock alloc s) = next_id s" by (simp add: withCallBlock_def)
  show "baddr (hd (blocks (withCallBlock alloc s))) = E" by (simp add: withCallBlock_def Br E_def)
  show ad: "addrs (blocks s2) = addrs (blocks s) @ [cb]" by (simp add: s2 Br)
  have iAP: "iid AP = next_id s" by (simp add: AP_def allocaPoint_def)
  have idf: "mset (map iid (f es)) = mset (map iid es) + {#next_id s#}" for es
  proof -
    have "mset (map iid (f es)) = mset (map iid (takeWhile isAlloca es @ dropWhile isAlloca es)) + {#next_id s#}"
      by (simp add: f_def iAP del: takeWhile_dropWhile_id)
    then show ?thesis by simp
  qed
  have ms: "mset (ids (blocks s2)) = mset (ids (blocks s)) + {#next_id s#}"
    using idf[of "insts B"] by (simp add: s2 Br)
  have g: "idgrow (next_id s) (Suc (next_id s)) (blocks s) (blocks s2)"
    by (rule idgrow_single) (simp add: ms)
  have da2: "distinct (addrs (blocks s2))" unfolding ad using da cbn by simp
  have ok2: "ir_ok s2"
    by (rule ir_ok_update[OF iv da2]) (use g in \<open>simp_all add: s2\<close>)
  have vf: "view S (f es) = view S es" if "skel AP \<notin> S" for S es
  proof -
    have "view S (f es) = view S (takeWhile isAlloca es @ dropWhile isAlloca es)"
      using that by (simp add: f_def view_Cons del: takeWhile_dropWhile_id)
    then show ?thesis by simp
  qed
  have vw: "view S (all_insts (blocks s2)) = view S (all_insts (blocks s))" if "skel AP \<notin> S" for S
    by (simp add: s2 Br vf[OF that])
  show "view S (all_insts (blocks s2)) = view S (all_insts (blocks s))" if "\<forall>k \<in> S. iid k < next_id s" for S
  proof (rule vw)
    show "skel AP \<notin> S" using that iAP by (metis skel_simps(1) less_irrefl)
  qed
  have sf: "set (f es) = insert AP (set es)" for es
  proof -
    have "set (f es) = insert AP (set (takeWhile isAlloca es @ dropWhile isAlloca es))"
      by (simp add: f_def del: takeWhile_dropWhile_id)
    then show ?thesis by simp
  qed
  show "set (all_insts (blocks s2)) = insert (allocaPoint (next_id s)) (set (all_insts (blocks s)))"
    by (simp add: s2 Br sf AP_def)
  show "block_insts (blocks s2) E =
           takeWhile isAlloca (block_insts (blocks s) E) @ allocaPoint (next_id s) # dropWhile isAlloca (block_insts (blocks s) E)"
    by (simp add: s2 Br E_def f_def AP_def)
  show "block_insts (blocks s2) a = block_insts (blocks s) a" if "a \<noteq> E" for a
    using that cbn by (auto simp: s2 Br E_def block_insts_append block_insts_notin)
  have fl2: "filter (\<lambda>i. i \<in> set callers) (ids (blocks s2)) = callers"
  proof -
    have "view {k. iid k \<in> set callers} (all_insts (blocks s2)) = view {k. iid k \<in> set callers} (all_insts (blocks s))"
    proof (rule vw)
      have "iid (skel AP) \<notin> set callers" using sub lt iAP by fastforce
      then show "skel AP \<notin> {k. iid k \<in> set callers}" by simp
    qed
    then have "map iid (view {k. iid k \<in> set callers} (all_insts (blocks s2)))
        = map iid (view {k. iid k \<in> set callers} (all_insts (blocks s)))" by simp
    then show ?thesis using fl by (simp add: view_ids ids_def)
  qed
  have cbe: "block_insts (blocks s2) cb = []"
    using cbn by (auto simp: s2 Br block_insts_append block_insts_notin)
  have clt: "\<forall>c \<in> set callers. c < Suc (next_id s)" using sub lt by fastforce
  have nx: "Suc (next_id s) \<le> next_id s2" by (simp add: s2)
  have cbin: "cb \<in> set (addrs (blocks s2))" by (simp add: ad)
  show "loop_pre (Suc (next_id s)) (set callers) cb {} callers s2"
    unfolding loop_pre_def
    using ok2 fl2 cbe clt nx cbin by simp
qed


lemma filter_map_distinct:
  "distinct (map f xs) \<Longrightarrow>
   filter (\<lambda>i. i \<in> set (map f (filter P xs))) (map f xs) = map f (filter P xs)"
proof (induction xs)
  case Nil
  then show ?case by simp
next
  case (Cons x xs)
  have n: "f x \<notin> set (map f xs)" and d: "distinct (map f xs)" using Cons.prems by auto
  have n': "f x \<notin> set (map f (filter P xs))" using n by auto
  have "filter (\<lambda>i. i \<in> insert (f x) (set (map f (filter P xs)))) (map f xs)
      = filter (\<lambda>i. i \<in> set (map f (filter P xs))) (map f xs)"
  proof (rule filter_cong)
    fix y assume "y \<in> set (map f xs)"
    then have "y \<noteq> f x" using n by blast
    then show "(y \<in> insert (f x) (set (map f (filter P xs)))) = (y \<in> set (map f (filter P xs)))" by simp
  qed simp
  then show ?case using Cons.IH[OF d] n' by (auto simp del: set_map)
qed

lemma callids_filter:
  "distinct (ids F) \<Longrightarrow> filter (\<lambda>i. i \<in> set (callids t F)) (ids F) = callids t F"
  unfolding callids_def ids_def by (rule filter_map_distinct)

lemma callids_distinct: "distinct (ids F) \<Longrightarrow> distinct (callids t F)"
  unfolding callids_def ids_def by (simp add: distinct_map_filter)

lemma find_inst_distinct:
  "distinct (ids F) \<Longrightarrow> C \<in> set (all_insts F) \<Longrightarrow> find_inst F (iid C) = Some C"
proof -
  assume d: "distinct (ids F)" and C: "C \<in> set (all_insts F)"
  then have "iid C \<in> set (ids F)" by (auto simp: ids_def)
  then obtain C' where C': "find_inst F (iid C) = Some C'"
    using find_inst_None_iff[of F "iid C"] by (cases "find_inst F (iid C)") auto
  then have "C' \<in> set (all_insts F)" "iid C' = iid C" using find_inst_Some by auto
  then have "C' = C" using distinct_ids_eq[of "all_insts F" C' C] d C by (simp add: ids_def)
  then show ?thesis using C' by simp
qed

lemma unlink_getArgOperand:
  assumes "find_inst G c = Some D" "find_inst F c = Some C" "skel D = skel C"
  shows "unlink (getArgOperand G c i) = unlink (getArgOperand F c i)"
proof -
  have s: "shape (ikind D) = shape (ikind C)" using assms(3) by (simp add: skel_def)
  show ?thesis
  proof (cases "ikind C")
    case (Call cl args)
    then obtain cl' args' where D: "ikind D = Call cl' args'" using s by (cases "ikind D") auto
    have m: "map unlink args' = map unlink args" using s Call D by simp
    then have l: "length args' = length args" by (metis length_map)
    have "unlink (args' ! i) = unlink (args ! i)" if "i < length args"
      using m that l by (metis nth_map)
    then show ?thesis using assms(1,2) Call D l by (simp add: getArgOperand_def)
  next
    case Alloca then show ?thesis using s assms(1,2) by (cases "ikind D") (auto simp: getArgOperand_def)
  next
    case (BitCast v) then show ?thesis using s assms(1,2) by (cases "ikind D") (auto simp: getArgOperand_def)
  next
    case (Load v) then show ?thesis using s assms(1,2) by (cases "ikind D") (auto simp: getArgOperand_def)
  next
    case (Store v p) then show ?thesis using s assms(1,2) by (cases "ikind D") (auto simp: getArgOperand_def)
  next
    case (PHI inc) then show ?thesis using s assms(1,2) by (cases "ikind D") (auto simp: getArgOperand_def)
  next
    case (Br b) then show ?thesis using s assms(1,2) by (cases "ikind D") (auto simp: getArgOperand_def)
  next
    case (Switch v d cs) then show ?thesis using s assms(1,2) by (cases "ikind D") (auto simp: getArgOperand_def)
  next
    case (Other vs) then show ?thesis using s assms(1,2) by (cases "ikind D") (auto simp: getArgOperand_def)
  next
    case (Term vs bs) then show ?thesis using s assms(1,2) by (cases "ikind D") (auto simp: getArgOperand_def)
  qed
qed

lemma in_view: "k \<in> set (view S xs) \<longleftrightarrow> k \<in> S \<and> k \<in> skel ` set xs"
  by (auto simp: view_def)

lemma isCallTo_skel [simp]: "isCallTo t (skel I) = isCallTo t I"
proof (cases "ikind I")
  case (Call c l)
  then show ?thesis by (cases c) (auto simp: isCallTo_def skel_def)
qed (auto simp: isCallTo_def skel_def)

lemma isCallTo_isCall: "isCallTo t I \<Longrightarrow> isCall I"
  by (cases "ikind I") (auto simp: isCallTo_def isCall_def)

lemma callids_iff: "c \<in> set (callids t F) \<longleftrightarrow> (\<exists>C \<in> set (all_insts F). iid C = c \<and> isCallTo t C)"
  unfolding callids_def by (simp add: image_iff) blast

lemma fold_map_f: "fold f (map g xs) s = fold (\<lambda>x. f (g x)) xs s"
  by (induction xs arbitrary: s) auto

lemma filter_single:
  assumes "distinct xs" "x \<in> set xs" "P x" "\<And>y. y \<in> set xs \<Longrightarrow> P y \<Longrightarrow> y = x"
  shows "filter P xs = [x]"
proof -
  obtain ys zs where xs: "xs = ys @ x # zs" using assms(2) by (meson split_list)
  have n: "x \<notin> set ys" "x \<notin> set zs" using assms(1) unfolding xs by auto
  have "\<forall>y \<in> set ys. \<not> P y"
  proof
    fix y assume y: "y \<in> set ys"
    then have "y \<noteq> x" using n by blast
    moreover have "y \<in> set xs" using y by (simp add: xs)
    ultimately show "\<not> P y" using assms(4) by blast
  qed
  then have a: "filter P ys = []" by (simp add: filter_empty_conv)
  have "\<forall>y \<in> set zs. \<not> P y"
  proof
    fix y assume y: "y \<in> set zs"
    then have "y \<noteq> x" using n by blast
    moreover have "y \<in> set xs" using y by (simp add: xs)
    ultimately show "\<not> P y" using assms(4) by blast
  qed
  then have b: "filter P zs = []" by (simp add: filter_empty_conv)
  show ?thesis unfolding xs using a b assms(3) by simp
qed


lemma cset_insert_noncall:
  "set (all_insts G) = insert A (set (all_insts F)) \<Longrightarrow> \<not> isCall A \<Longrightarrow> cset G = cset F"
  by (auto simp: cset_def ccalls_def)

lemma isCall_allocaPoint [simp]: "\<not> isCall (allocaPoint n)"
  by (simp add: isCall_def allocaPoint_def)

lemma uses_allocaPoint [simp]: "\<not> uses j (allocaPoint n)"
  by (simp add: uses_def allocaPoint_def)

lemma mergeGroup_props:
  fixes t :: nat and M :: "nat \<Rightarrow> func_info"
  assumes fa: "fresh_alloc alloc" and iv: "ir_ok s"
    and cs: "callers = callids t (blocks s)" and ne: "callers \<noteq> []"
  defines "cb \<equiv> newCallBlock alloc s"
  defines "sts \<equiv> groupSites alloc callers s"
  defines "s3 \<equiv> fst (rewritten alloc callers s)"
  defines "cTR \<equiv> fst (snd (rewritten alloc callers s))"
  defines "cOP \<equiv> snd (snd (rewritten alloc callers s))"
  defines "n3 \<equiv> next_id s3" and "n \<equiv> arg_size (M t)"
  defines "s' \<equiv> mergeGroup alloc M t callers s"
  shows "map fst sts = callers" and "distinct (map (fst \<circ> snd) sts)" and "distinct callers"
    and "sorted_wrt (<) (map fst cTR)" and "set cTR = (\<lambda>(c, P, R). (P, R)) ` set sts"
    and "\<forall>(c, P, R) \<in> set sts. map_get cOP c = P"
    and "block_insts (blocks s') cb =
           argPHIs n3 n callers cOP (blocks s3) @ [whereFrom n3 n cTR, newCall n3 n t, switchBack n3 n cTR]"
    and "ir_ok s'" and "next_id s < n3" and "next_id s' = n3 + n + 3"
    and "hd (addrs (blocks s')) = hd (addrs (blocks s))"
    and "set (addrs (blocks s)) \<subseteq> set (addrs (blocks s'))"
    and "\<And>S. (\<forall>k \<in> S. iid k < next_id s \<and> iid k \<notin> set callers) \<Longrightarrow>
           view S (all_insts (blocks s')) = view S (all_insts (blocks s))"
    and "set (ids (blocks s')) \<subseteq> (set (ids (blocks s)) - set callers) \<union> {next_id s ..}"
    and "\<forall>c \<in> set callers. \<not> refd c (blocks s')"
    and "\<forall>j < next_id s. refd j (blocks s') \<longrightarrow> refd j (blocks s) \<or> j \<in> set (ids (blocks s))"
    and "\<forall>K \<in> set (all_insts (blocks s')). isCall K \<and> next_id s \<le> iid K \<longrightarrow> K = newCall n3 n t"
    and "\<forall>c \<in> set callers. \<forall>i. unlink (getArgOperand (blocks s3) c i) = unlink (getArgOperand (blocks s) c i)"
    and "\<forall>(c, P, R) \<in> set sts. P \<noteq> cb \<and> R \<noteq> cb \<and> block_insts (blocks s3) P \<noteq> []
           \<and> ikind (last (block_insts (blocks s3) P)) = Br cb"
proof -
  define s2 where "s2 = insertAllocaPoint (withCallBlock alloc s)"
  define E where "E = hd (addrs (blocks s))"
  define lo where "lo = Suc (next_id s)"
  have da: "distinct (addrs (blocks s))" and di: "distinct (ids (blocks s))"
    and lt: "\<And>i. i \<in> set (ids (blocks s)) \<Longrightarrow> i < next_id s"
    using iv by (auto simp: ir_ok_def idinv_def)
  have fl: "filter (\<lambda>i. i \<in> set callers) (ids (blocks s)) = callers"
    unfolding cs by (rule callids_filter[OF di])
  show dc: "distinct callers" unfolding cs by (rule callids_distinct[OF di])
  note g = group_loop_pre[OF fa iv fl ne, folded cb_def s2_def E_def lo_def]
  have pre: "loop_pre lo (set callers) cb {} callers s2" by (rule g(1))
  have sts': "sts = sites alloc E (next_id s) cb callers s2"
    by (simp add: sts_def groupSites_def Let_def g(3,4) s2_def cb_def)
  have rw: "rewritten alloc callers s =
      (afterCallers alloc E (next_id s) cb callers s2,
       fold (\<lambda>(c, P, R). map_set P R) sts [], fold (\<lambda>(c, P, R). map_set c P) sts [])"
    by (simp add: rewritten_def Let_def g(3,4) s2_def[symmetric] cb_def[symmetric] rewriteCallers_eq sts')
  have s3': "s3 = afterCallers alloc E (next_id s) cb callers s2" by (simp add: s3_def rw)
  have cTR': "cTR = fold (\<lambda>(c, P, R). map_set P R) sts []" by (simp add: cTR_def rw)
  have cOP': "cOP = fold (\<lambda>(c, P, R). map_set c P) sts []" by (simp add: cOP_def rw)
  note l0 = afterCallers_props[OF fa pre, of E "next_id s", folded sts' s3']
  have pre3: "loop_pre lo (set callers) cb ({} \<union> (fst \<circ> snd) ` set sts) [] s3"
    and nx3: "next_id s2 \<le> n3"
    and bn: "benign lo (set callers) (blocks s2) (blocks s3)"
    and mf: "map fst sts = callers"
    and dp: "distinct (map (fst \<circ> snd) sts)"
    and cbP: "cb \<notin> (fst \<circ> snd) ` set sts" and cbR: "cb \<notin> (snd \<circ> snd) ` set sts"
    and hd3: "hd (addrs (blocks s3)) = hd (addrs (blocks s2))"
    and ad3: "set (addrs (blocks s2)) \<subseteq> set (addrs (blocks s3))"
    and st3: "\<forall>c \<in> set callers. \<forall>U \<in> set (all_insts (blocks s3)). uses c U \<longrightarrow> isStorek (ikind U)"
    using l0 unfolding n3_def by blast+
  show "map fst sts = callers" by (rule mf)
  show "distinct (map (fst \<circ> snd) sts)" by (rule dp)
  have ok3: "ir_ok s3" and cbin3: "cb \<in> set (addrs (blocks s3))" and cbe3: "block_insts (blocks s3) cb = []"
    and lo3: "lo \<le> n3"
    and PB: "\<forall>P \<in> (fst \<circ> snd) ` set sts. block_insts (blocks s3) P \<noteq> [] \<and> ikind (last (block_insts (blocks s3) P)) = Br cb"
    using pre3 unfolding loop_pre_def n3_def by auto
  show "\<forall>(c, P, R) \<in> set sts. P \<noteq> cb \<and> R \<noteq> cb \<and> block_insts (blocks s3) P \<noteq> []
           \<and> ikind (last (block_insts (blocks s3) P)) = Br cb"
    using cbP cbR PB by force
  show n3s: "next_id s < n3" using lo3 by (simp add: lo_def)
  have clt: "\<forall>c \<in> set callers. c < next_id s" using fl lt by (metis filter_is_subset subsetD)
  have clt3: "\<forall>c \<in> set callers. c < next_id s3" using clt n3s by (auto simp: n3_def)
  \<comment> \<open>the two maps\<close>
  have pr: "fold (\<lambda>(c, P, R). map_set P R) sts [] = fold (\<lambda>(k, v). map_set k v) (map (\<lambda>(c, P, R). (P, R)) sts) []"
    by (simp add: fold_map_f case_prod_unfold)
  have dk: "distinct (map fst (map (\<lambda>(c, P, R). (P, R)) sts))"
    using dp by (simp add: comp_def case_prod_unfold)
  have m1: "sorted_wrt (<) (map fst cTR) \<and> set cTR = set [] \<union> set (map (\<lambda>(c, P, R). (P, R)) sts)"
    unfolding cTR' pr by (rule fold_map_set) (use dk in simp_all)
  show "sorted_wrt (<) (map fst cTR)" using m1 by blast
  show "set cTR = (\<lambda>(c, P, R). (P, R)) ` set sts" using m1 by simp
  have pr2: "fold (\<lambda>(c, P, R). map_set c P) sts [] = fold (\<lambda>(k, v). map_set k v) (map (\<lambda>(c, P, R). (c, P)) sts) []"
    by (simp add: fold_map_f case_prod_unfold)
  have dk2: "distinct (map fst (map (\<lambda>(c, P, R). (c, P)) sts))"
    using dc mf by (simp add: comp_def case_prod_unfold)
  have m2: "sorted_wrt (<) (map fst cOP) \<and> set cOP = set [] \<union> set (map (\<lambda>(c, P, R). (c, P)) sts)"
    unfolding cOP' pr2 by (rule fold_map_set) (use dk2 in simp_all)
  have "distinct (map fst cOP)" using m2 sorted_lt_distinct by blast
  moreover have "set cOP = (\<lambda>(c, P, R). (c, P)) ` set sts" using m2 by simp
  ultimately show "\<forall>(c, P, R) \<in> set sts. map_get cOP c = P"
    by (force intro!: map_get_set)
  \<comment> \<open>the shared block\<close>
  have fin: "s' = finishGroup M t callers cb cTR cOP s3"
    by (simp add: s'_def mergeGroup_finish rw s3' cTR' cOP' cb_def)
  note f = finishGroup_props[where M = M and t = t and cOP = cOP and cTR = cTR, OF ok3 cbin3 cbe3 clt3 st3, folded fin n3_def n_def]
  show "block_insts (blocks s') cb =
           argPHIs n3 n callers cOP (blocks s3) @ [whereFrom n3 n cTR, newCall n3 n t, switchBack n3 n cTR]"
    by (rule f(1))
  show "ir_ok s'" by (rule f(2))
  show "next_id s' = n3 + n + 3" by (rule f(3))
  have ne0: "addrs (blocks s) \<noteq> []" using g(6) by (simp add: addrs_def)
  show "hd (addrs (blocks s')) = hd (addrs (blocks s))"
    using f(4) hd3 g(7) ne0 by simp
  show "set (addrs (blocks s)) \<subseteq> set (addrs (blocks s'))"
    using f(4) ad3 g(7) by auto
  show "view S (all_insts (blocks s')) = view S (all_insts (blocks s))"
    if S: "\<forall>k \<in> S. iid k < next_id s \<and> iid k \<notin> set callers" for S
  proof -
    have "view S (all_insts (blocks s')) = view S (all_insts (blocks s3))"
      by (rule f(5)) (use S n3s in auto)
    also have "\<dots> = view S (all_insts (blocks s2))"
      by (rule benignD(1)[OF bn]) (use S in \<open>auto simp: lo_def\<close>)
    also have "\<dots> = view S (all_insts (blocks s))"
      by (rule g(8)) (use S in auto)
    finally show ?thesis .
  qed
  have ids2: "set (ids (blocks s2)) = insert (next_id s) (set (ids (blocks s)))"
    using g(9) by (simp add: ids_def allocaPoint_def)
  have ids3: "set (ids (blocks s3)) \<subseteq> set (ids (blocks s)) \<union> {next_id s ..}"
    using benignD(3)[OF bn] ids2 by (auto simp: lo_def)
  show "set (ids (blocks s')) \<subseteq> (set (ids (blocks s)) - set callers) \<union> {next_id s ..}"
    using f(6) ids3 n3s by auto
  show "\<forall>c \<in> set callers. \<not> refd c (blocks s')" by (rule f(7))
  have r2: "refd j (blocks s2) \<longleftrightarrow> refd j (blocks s)" for j
    unfolding refd_def g(9) by simp
  show "\<forall>j < next_id s. refd j (blocks s') \<longrightarrow> refd j (blocks s) \<or> j \<in> set (ids (blocks s))"
  proof (intro allI impI)
    fix j assume j: "j < next_id s" and r: "refd j (blocks s')"
    then have "refd j (blocks s3)" using f(8) n3s by auto
    then obtain U where U: "U \<in> set (all_insts (blocks s3))" "uses j U" by (auto simp: refd_def)
    have "j < lo" using j by (simp add: lo_def)
    then have "(\<exists>V \<in> set (all_insts (blocks s2)). skel V = skel U \<and> uses j V)
        \<or> (isStorek (ikind U) \<and> j \<in> set (ids (blocks s2)))"
      using benignD(2)[OF bn] U unfolding umono_def by blast
    then show "refd j (blocks s) \<or> j \<in> set (ids (blocks s))"
    proof
      assume "\<exists>V \<in> set (all_insts (blocks s2)). skel V = skel U \<and> uses j V"
      then have "refd j (blocks s2)" by (auto simp: refd_def)
      then show ?thesis using r2 by simp
    next
      assume "isStorek (ikind U) \<and> j \<in> set (ids (blocks s2))"
      then show ?thesis using ids2 j by auto
    qed
  qed
  have cs2: "cset (blocks s2) = cset (blocks s)"
    by (rule cset_insert_noncall[OF g(9)]) simp
  have cs3: "cset (blocks s3) = cset (blocks s)" using benignD(4)[OF bn] cs2 by simp
  show "\<forall>K \<in> set (all_insts (blocks s')). isCall K \<and> next_id s \<le> iid K \<longrightarrow> K = newCall n3 n t"
  proof (intro ballI impI)
    fix K assume K: "K \<in> set (all_insts (blocks s'))" and c: "isCall K \<and> next_id s \<le> iid K"
    show "K = newCall n3 n t"
    proof (cases "n3 \<le> iid K")
      case True
      then have "K \<in> set (argPHIs n3 n callers cOP (blocks s3) @ [whereFrom n3 n cTR, newCall n3 n t, switchBack n3 n cTR])"
        using f(9) K by blast
      then show ?thesis using c
        by (auto simp: isCall_def argPHIs_def argPHI_def whereFrom_def switchBack_def)
    next
      case False
      have "view {skel K} (all_insts (blocks s')) = view {skel K} (all_insts (blocks s3))"
        by (rule f(5)) (use False c clt in auto)
      moreover have "skel K \<in> set (view {skel K} (all_insts (blocks s')))" using K by (simp add: in_view)
      ultimately have "skel K \<in> skel ` set (all_insts (blocks s3))" by (simp add: in_view)
      then have "skel K \<in> cset (blocks s3)" using c by (auto simp: cset_def ccalls_def)
      then have "skel K \<in> cset (blocks s)" using cs3 by simp
      then obtain K0 where "K0 \<in> set (all_insts (blocks s))" "skel K0 = skel K"
        by (auto simp: cset_def ccalls_def)
      then have "iid K \<in> set (ids (blocks s))" by (metis skel_simps(1) ids_def image_eqI set_map)
      then show ?thesis using lt c by fastforce
    qed
  qed
  have di3: "distinct (ids (blocks s3))" using ok3 by (simp add: ir_ok_def idinv_def)
  show "\<forall>c \<in> set callers. \<forall>i. unlink (getArgOperand (blocks s3) c i) = unlink (getArgOperand (blocks s) c i)"
  proof (intro ballI allI)
    fix c i assume "c \<in> set callers"
    then obtain C where C: "C \<in> set (all_insts (blocks s))" "iid C = c" "isCallTo t C"
      unfolding cs callids_iff by blast
    then have "skel C \<in> cset (blocks s3)" using cs3 isCallTo_isCall by (auto simp: cset_def ccalls_def)
    then obtain D where D: "D \<in> set (all_insts (blocks s3))" "skel D = skel C"
      by (auto simp: cset_def ccalls_def)
    then have iD: "iid D = c" using C(2) by (metis skel_simps(1))
    have "find_inst (blocks s3) c = Some D" using find_inst_distinct[OF di3 D(1)] iD by simp
    moreover have "find_inst (blocks s) c = Some C" using find_inst_distinct[OF di C(1)] C(2) by simp
    ultimately show "unlink (getArgOperand (blocks s3) c i) = unlink (getArgOperand (blocks s) c i)"
      using D(2) by (rule unlink_getArgOperand)
  qed
qed


lemma sorted_pairs:
  fixes m :: "(nat \<times> nat) list" and sts :: "(nat \<times> nat \<times> nat) list"
  assumes "sorted_wrt (<) (map fst m)" "set m = (\<lambda>(c, P, R). (P, R)) ` set sts"
    "distinct (map (fst \<circ> snd) sts)"
  shows "map fst m = sort (map (fst \<circ> snd) sts)" and "length m = length sts"
proof -
  have "set (map fst m) = set (map (fst \<circ> snd) sts)"
    using assms(2) by (force simp: image_iff)
  then have e: "set (map fst m) = set (sort (map (fst \<circ> snd) sts))" by simp
  have "sorted_wrt (<) (sort (map (fst \<circ> snd) sts))"
    using assms(3) by (simp add: strict_sorted_iff)
  then show m: "map fst m = sort (map (fst \<circ> snd) sts)"
    using sorted_lt_unique[OF assms(1) _ e] by blast
  have "length (map fst m) = length (sort (map (fst \<circ> snd) sts))" using m by simp
  then show "length m = length sts" by simp
qed

lemma unlink_eq_iff: "unlink v = unlink w \<longleftrightarrow> v = w \<or> (\<exists>j k. v = VInst j \<and> w = VInst k)"
  by (cases v; cases w) auto

lemma fresh_bump: "fresh_alloc bump_alloc"
proof -
  have "Suc (Max (set (0 # xs))) \<notin> set xs" for xs :: "nat list"
  proof
    assume "Suc (Max (set (0 # xs))) \<in> set xs"
    then have "Suc (Max (set (0 # xs))) \<le> Max (set (0 # xs))" by (intro Max_ge) auto
    then show False by simp
  qed
  then show ?thesis by (simp add: fresh_alloc_def bump_alloc_def)
qed

lemma ir_ok_start: "distinct (addrs F) \<Longrightarrow> distinct (ids F) \<Longrightarrow> ir_ok (start F)"
proof -
  assume a: "distinct (addrs F)" "distinct (ids F)"
  have "i < Suc (Max (set (0 # ids F)))" if "i \<in> set (ids F)" for i
  proof -
    have "i \<le> Max (set (0 # ids F))" using that by (intro Max_ge) auto
    then show ?thesis by simp
  qed
  then show ?thesis using a by (simp add: ir_ok_def idinv_def start_def)
qed

lemma route_loop_0:
  "route_loop m 0 [] [] =
     (map (\<lambda>i. (VConstI32 (word_of_nat i), fst (m ! i))) [0..<length m],
      map (\<lambda>i. (word_of_nat i, snd (m ! i))) [0..<length m])"
  by (simp add: route_loop_eq)

lemma tags_distinct_list:
  assumes "k \<le> 2 ^ 32"
  shows "distinct (map (\<lambda>i. (word_of_nat i :: 32 word)) [0..<k])"
proof -
  have "inj_on (\<lambda>i. (word_of_nat i :: 32 word)) (set [0..<k])"
  proof (rule inj_onI)
    fix x y assume x: "x \<in> set [0..<k]" and y: "y \<in> set [0..<k]"
      and e: "(word_of_nat x :: 32 word) = word_of_nat y"
    have "x < 2 ^ 32" "y < 2 ^ 32" using x y assms by auto
    then show "x = y"
      using e tags_distinct[of x y] tags_distinct[of y x] by (metis linorder_neqE_nat of_int_of_nat_eq)
  qed
  then show ?thesis by (simp add: distinct_map)
qed

end
